theory Spec2Isabelle
  imports Complex_Main "HOL-Library.Word" "HOL-Library.Multiset" "HOL-Library.AList"
    "HOL-Library.Sublist"
begin

unbundle bit_operations_syntax

section \<open>Shared types and constants (SwipeTypeTypes.h)\<close>

text \<open>
  The C++ type \<^verbatim>\<open>float\<close> is embedded as \<^typ>\<open>real\<close>: every arithmetic
  operation is taken exactly, and the sentinel \<^verbatim>\<open>FLT_MAX\<close> is the real number
  that binary32 calls its largest finite value. Rounding, infinities and NaN are outside
  the embedding; the concrete inputs evaluated below are small dyadic numbers on which
  binary32 arithmetic is exact. Signed 32-bit indices and code points are \<^typ>\<open>int\<close>
  (no arithmetic that could overflow is applied to them), sizes and loop counters are
  \<^typ>\<open>nat\<close>, and the unsigned dictionary fields are machine words.
\<close>

definition FLT_MAX :: real where
  "FLT_MAX = 340282346638528859811704183484516925440"

definition RESAMPLE_COUNT :: nat where
  "RESAMPLE_COUNT = 64"

definition MIN_POINT_DISTANCE_DP :: real where
  "MIN_POINT_DISTANCE_DP = 2.0"

definition DTW_BANDWIDTH_RATIO :: real where
  "DTW_BANDWIDTH_RATIO = 0.10"

definition DTW_BANDWIDTH :: int where
  "DTW_BANDWIDTH = 6"

definition FREQUENCY_WEIGHT :: real where
  "FREQUENCY_WEIGHT = 0.30"

definition MAX_MAX_CANDIDATES :: int where
  "MAX_MAX_CANDIDATES = 20"

definition LENGTH_FILTER_TOLERANCE :: real where
  "LENGTH_FILTER_TOLERANCE = 3.0"

definition MAX_DTW_FLOOR :: real where
  "MAX_DTW_FLOOR = 3.0"

definition DICT_MAGIC :: "32 word" where
  "DICT_MAGIC = 0x474C4944"

definition DICT_VERSION :: "16 word" where
  "DICT_VERSION = 1"

definition DICT_HEADER_SIZE :: nat where
  "DICT_HEADER_SIZE = 32"

definition MAX_WORD_LENGTH :: nat where
  "MAX_WORD_LENGTH = 64"

definition SOURCE_MAIN_DICT :: "32 word" where
  "SOURCE_MAIN_DICT = 0x01"

datatype ErrorCode =
    NONE
  | DICT_NOT_FOUND
  | DICT_CORRUPT
  | DICT_VERSION_MISMATCH
  | LAYOUT_INVALID
  | PATH_TOO_SHORT
  | ENGINE_NOT_INITIALIZED
  | OUT_OF_MEMORY

text \<open>
  \<^verbatim>\<open>ErrorInfo\<close> pairs the code with a diagnostic message; only the code is
  kept here, so an error slot is an \<^typ>\<open>ErrorCode\<close>.
\<close>

record ScoringConfig =
  resampleCount :: int
  minPointDistance :: real
  dtwBandwidthRatio :: real
  frequencyWeight :: real
  maxCandidatesEvaluated :: int
  lengthFilterTolerance :: real
  maxDTWFloor :: real

text \<open>The member initialisers of \<^verbatim>\<open>struct ScoringConfig\<close>.\<close>

definition default_config :: ScoringConfig where
  "default_config =
     \<lparr>resampleCount = int RESAMPLE_COUNT,
      minPointDistance = MIN_POINT_DISTANCE_DP,
      dtwBandwidthRatio = DTW_BANDWIDTH_RATIO,
      frequencyWeight = FREQUENCY_WEIGHT,
      maxCandidatesEvaluated = MAX_MAX_CANDIDATES,
      lengthFilterTolerance = LENGTH_FILTER_TOLERANCE,
      maxDTWFloor = MAX_DTW_FLOOR\<rparr>"

section \<open>Points, paths and candidates\<close>

record GesturePoint =
  gp_x :: real
  gp_y :: real
  gp_timestamp :: int

record NormalizedPoint =
  np_x :: real
  np_y :: real
  np_t :: real

record RawGesturePath =
  raw_points :: "GesturePoint list"

definition isEmpty :: "RawGesturePath \<Rightarrow> bool" where
  "isEmpty raw \<longleftrightarrow> length (raw_points raw) < 2"

record GesturePath =
  path_points :: "NormalizedPoint list"
  aspectRatio :: real
  totalArcLength :: real
  startKeyIndex :: int
  endKeyIndex :: int

text \<open>The default-constructed \<^verbatim>\<open>GesturePath()\<close>.\<close>

definition empty_path :: GesturePath where
  "empty_path =
     \<lparr>path_points = [], aspectRatio = 1.0, totalArcLength = 0.0,
      startKeyIndex = -1, endKeyIndex = -1\<rparr>"

definition isValid :: "GesturePath \<Rightarrow> bool" where
  "isValid p \<longleftrightarrow> length (path_points p) = 64"

record GestureCandidate =
  cand_word :: string
  confidence :: real
  sourceFlags :: "32 word"
  dtwScore :: real
  frequencyScore :: real

section \<open>Keyboard layout (KeyboardLayout.h, AdjacencyMap.cpp)\<close>

record KeyDescriptor =
  key_label :: string
  codePoint :: int
  centerX :: real
  centerY :: real
  key_width :: real
  key_height :: real

definition isCharacterKey :: "KeyDescriptor \<Rightarrow> bool" where
  "isCharacterKey k \<longleftrightarrow> codePoint k \<ge> 0"

record KeyboardLayout =
  languageTag :: string
  keys :: "KeyDescriptor list"
  layoutWidth :: real
  layoutHeight :: real

text \<open>
  The loop of \<^verbatim>\<open>findNearestKey\<close>: \<open>i\<close> is the index of the head of the
  remaining keys, \<open>bestIndex\<close> and \<open>bestDist\<close> are the loop's two variables.
\<close>

fun findNearestKey_loop ::
  "KeyDescriptor list \<Rightarrow> nat \<Rightarrow> real \<Rightarrow> real \<Rightarrow> int \<Rightarrow> real \<Rightarrow> int" where
  "findNearestKey_loop [] i x y bestIndex bestDist = bestIndex"
| "findNearestKey_loop (key # ks) i x y bestIndex bestDist =
     (if \<not> isCharacterKey key then findNearestKey_loop ks (Suc i) x y bestIndex bestDist
      else
        let dx = centerX key - x;
            dy = centerY key - y;
            dist = sqrt (dx * dx + dy * dy)
        in if dist < bestDist
           then findNearestKey_loop ks (Suc i) x y (int i) dist
           else findNearestKey_loop ks (Suc i) x y bestIndex bestDist)"

definition findNearestKey :: "KeyboardLayout \<Rightarrow> real \<Rightarrow> real \<Rightarrow> int" where
  "findNearestKey layout x y = findNearestKey_loop (keys layout) 0 x y (-1) FLT_MAX"

definition ascii_lower_cp :: "int \<Rightarrow> int" where
  "ascii_lower_cp cp = (if 65 \<le> cp \<and> cp \<le> 90 then cp - 65 + 97 else cp)"

fun findKeyByCodePoint_loop :: "KeyDescriptor list \<Rightarrow> nat \<Rightarrow> int \<Rightarrow> int" where
  "findKeyByCodePoint_loop [] i searchCp = -1"
| "findKeyByCodePoint_loop (key # ks) i searchCp =
     (if ascii_lower_cp (codePoint key) = searchCp then int i
      else findKeyByCodePoint_loop ks (Suc i) searchCp)"

definition findKeyByCodePoint :: "KeyboardLayout \<Rightarrow> int \<Rightarrow> int" where
  "findKeyByCodePoint layout cp = findKeyByCodePoint_loop (keys layout) 0 (ascii_lower_cp cp)"

definition layout_isValid :: "KeyboardLayout \<Rightarrow> bool" where
  "layout_isValid layout \<longleftrightarrow>
     (if keys layout = [] then False
      else if layoutWidth layout \<le> 0 \<or> layoutHeight layout \<le> 0 then False
      else list_ex isCharacterKey (keys layout))"

section \<open>Scorer (Scorer.cpp)\<close>

record Scorer =
  scorer_config :: ScoringConfig

definition scorer_configure :: "ScoringConfig \<Rightarrow> Scorer \<Rightarrow> Scorer" where
  "scorer_configure config s = s\<lparr>scorer_config := config\<rparr>"

definition pointDistance :: "NormalizedPoint \<Rightarrow> NormalizedPoint \<Rightarrow> real" where
  "pointDistance a b =
     (let dx = np_x a - np_x b; dy = np_y a - np_y b in sqrt (dx * dx + dy * dy))"

text \<open>
  \<^verbatim>\<open>static_cast<int>\<close> of a float that is a whole number: the number itself when
  it fits a 32-bit \<^verbatim>\<open>int\<close>. Outside that range the conversion is undefined in
  C++; the conversion instruction of x86-64 gives \<^verbatim>\<open>INT_MIN\<close> there, and so
  does this definition.
\<close>

definition static_cast_int :: "int \<Rightarrow> int" where
  "static_cast_int v = (if - 2147483648 \<le> v \<and> v \<le> 2147483647 then v else - 2147483648)"

text \<open>
  The Sakoe-Chiba band width of \<^verbatim>\<open>computeDTWDistance\<close>:
  \<^verbatim>\<open>W = static_cast<int>(std::ceil(ratio * static_cast<float>(N))); if (W < 1) W = 1;\<close>
\<close>

definition bandWidth :: "Scorer \<Rightarrow> nat \<Rightarrow> int" where
  "bandWidth s N =
     (let W = static_cast_int \<lceil>dtwBandwidthRatio (scorer_config s) * real N\<rceil>
      in if W < 1 then 1 else W)"


text \<open>
  \<^verbatim>\<open>computeDTWDistance\<close> keeps two rows of the cost matrix. The first row is
  filled by the loop \<^verbatim>\<open>for (j = 1; j <= min(W, N - 1); ++j)\<close>, every later row
  \<open>i\<close> by the loop over \<open>j\<close> from \<open>max(0, i - W)\<close> to \<open>min(N - 1, i + W)\<close>
  on a row freshly filled with \<^verbatim>\<open>FLT_MAX\<close>; a \<^verbatim>\<open>for\<close> loop is a
  \<^const>\<open>fold\<close> over its index range, a vector write is a list update.
\<close>

definition dtw_first_row ::
  "NormalizedPoint list \<Rightarrow> NormalizedPoint list \<Rightarrow> int \<Rightarrow> nat \<Rightarrow> real list" where
  "dtw_first_row g ideal W N =
     fold (\<lambda>j dtw_prev.
             if dtw_prev ! (j - 1) < FLT_MAX
             then dtw_prev[j := dtw_prev ! (j - 1) + pointDistance (g ! 0) (ideal ! j)]
             else dtw_prev)
          [1 ..< Suc (nat (min W (int N - 1)))]
          ((replicate N FLT_MAX)[0 := pointDistance (g ! 0) (ideal ! 0)])"

definition dtw_cell ::
  "NormalizedPoint list \<Rightarrow> NormalizedPoint list \<Rightarrow> nat \<Rightarrow> real list \<Rightarrow> nat \<Rightarrow> real list
     \<Rightarrow> real list" where
  "dtw_cell g ideal i dtw_prev j dtw_curr =
     (let cost = pointDistance (g ! i) (ideal ! j);
          best0 = FLT_MAX;
          best1 = (if dtw_prev ! j < FLT_MAX then min best0 (dtw_prev ! j) else best0);
          best2 = (if j > 0 \<and> dtw_curr ! (j - 1) < FLT_MAX
                   then min best1 (dtw_curr ! (j - 1)) else best1);
          best3 = (if j > 0 \<and> dtw_prev ! (j - 1) < FLT_MAX
                   then min best2 (dtw_prev ! (j - 1)) else best2)
      in dtw_curr[j := (if best3 < FLT_MAX then cost + best3 else FLT_MAX)])"

definition dtw_row ::
  "NormalizedPoint list \<Rightarrow> NormalizedPoint list \<Rightarrow> int \<Rightarrow> nat \<Rightarrow> nat \<Rightarrow> real list
     \<Rightarrow> real list" where
  "dtw_row g ideal W N i dtw_prev =
     (let jMin = nat (max 0 (int i - W));
          jMax = nat (min (int N - 1) (int i + W))
      in fold (dtw_cell g ideal i dtw_prev) [jMin ..< Suc jMax] (replicate N FLT_MAX))"

definition computeDTWDistance :: "Scorer \<Rightarrow> GesturePath \<Rightarrow> GesturePath \<Rightarrow> real" where
  "computeDTWDistance s gesture idealPath =
     (let N = RESAMPLE_COUNT in
      if length (path_points gesture) \<noteq> N \<or> length (path_points idealPath) \<noteq> N
      then FLT_MAX
      else
        let W = bandWidth s N;
            g = path_points gesture;
            ideal = path_points idealPath;
            dtw_prev = fold (dtw_row g ideal W N) [1 ..< N] (dtw_first_row g ideal W N);
            raw = dtw_prev ! (N - 1)
        in if raw \<ge> FLT_MAX then FLT_MAX else raw / real N)"

section \<open>Dictionary store (DictionaryLoader.cpp)\<close>

record DictionaryEntry =
  entry_word :: string
  frequency :: "32 word"
  entry_flags :: "8 word"

record DictionaryHeader =
  hdr_magic :: "32 word"
  hdr_version :: "16 word"
  hdr_flags :: "16 word"
  entryCount :: "32 word"
  hdr_languageTag :: string

definition empty_header :: DictionaryHeader where
  "empty_header =
     \<lparr>hdr_magic = 0, hdr_version = 0, hdr_flags = 0, entryCount = 0, hdr_languageTag = []\<rparr>"

record DictionaryLoader =
  entries :: "DictionaryEntry list"
  dict_header :: DictionaryHeader
  maxFrequency :: "32 word"
  dict_lastError :: ErrorCode
  loaded :: bool

text \<open>A freshly constructed loader (the member initialisers of \<^verbatim>\<open>Impl\<close>).\<close>

definition new_loader :: DictionaryLoader where
  "new_loader =
     \<lparr>entries = [], dict_header = empty_header, maxFrequency = 0,
      dict_lastError = NONE, loaded = False\<rparr>"

definition setError :: "ErrorCode \<Rightarrow> DictionaryLoader \<Rightarrow> DictionaryLoader" where
  "setError code d = d\<lparr>dict_lastError := code\<rparr>"

definition clearError :: "DictionaryLoader \<Rightarrow> DictionaryLoader" where
  "clearError d = d\<lparr>dict_lastError := NONE\<rparr>"

definition readU16LE :: "8 word list \<Rightarrow> nat \<Rightarrow> 16 word" where
  "readU16LE buf offset = ucast (buf ! offset) OR push_bit 8 (ucast (buf ! (offset + 1)))"

definition readU32LE :: "8 word list \<Rightarrow> nat \<Rightarrow> 32 word" where
  "readU32LE buf offset =
     ucast (buf ! offset) OR push_bit 8 (ucast (buf ! (offset + 1)))
       OR push_bit 16 (ucast (buf ! (offset + 2)))
       OR push_bit 24 (ucast (buf ! (offset + 3)))"

text \<open>The bytes of a \<^verbatim>\<open>std::string\<close> are characters of an Isabelle string.\<close>

definition bytes_to_string :: "8 word list \<Rightarrow> string" where
  "bytes_to_string bs = map (\<lambda>b. char_of (unat b)) bs"

text \<open>\<^verbatim>\<open>std::tolower\<close> on an \<^verbatim>\<open>unsigned char\<close>, in the C locale.\<close>

definition tolower_c :: "char \<Rightarrow> char" where
  "tolower_c c =
     (let n = (of_char c :: nat) in if 65 \<le> n \<and> n \<le> 90 then char_of (n + 32) else c)"

text \<open>
  The entry loop of \<^verbatim>\<open>parseFromBuffer\<close>; the first argument counts the
  iterations that remain (\<open>entryCount - i\<close>), \<open>pos\<close> is the read position. The
  result is the value the loop leaves the function with (\<^verbatim>\<open>false\<close> on an early
  return) and the loader as it stands at that moment. Before the loop the code calls
  \<^verbatim>\<open>entries.reserve(header.entryCount)\<close>, which changes no value; memory is not
  bounded here, so the \<^verbatim>\<open>std::bad_alloc\<close> that a header announcing more
  entries than the machine can hold makes it throw is not a result of the model.
\<close>

fun parseEntries ::
  "nat \<Rightarrow> 8 word list \<Rightarrow> nat \<Rightarrow> DictionaryLoader \<Rightarrow> bool \<times> DictionaryLoader" where
  "parseEntries 0 buf pos d = (True, d)"
| "parseEntries (Suc n) buf pos d =
     (if pos + 1 > length buf then (False, setError DICT_CORRUPT d)
      else
        let wordLen = unat (buf ! pos);
            pos1 = pos + 1
        in if wordLen > MAX_WORD_LENGTH then (False, setError DICT_CORRUPT d)
           else if pos1 + wordLen + 4 + 1 > length buf then (False, setError DICT_CORRUPT d)
           else
             let entry = \<lparr>entry_word = bytes_to_string (take wordLen (drop pos1 buf)),
                          frequency = readU32LE buf (pos1 + wordLen),
                          entry_flags = buf ! (pos1 + wordLen + 4)\<rparr>;
                 d1 = (if frequency entry > maxFrequency d
                       then d\<lparr>maxFrequency := frequency entry\<rparr> else d);
                 d2 = d1\<lparr>entries := entries d1 @ [entry]\<rparr>
             in parseEntries n buf (pos1 + wordLen + 4 + 1) d2)"

definition parseFromBuffer :: "8 word list \<Rightarrow> DictionaryLoader \<Rightarrow> bool \<times> DictionaryLoader" where
  "parseFromBuffer buf d0 =
     (let d = (clearError d0)\<lparr>entries := [], dict_header := empty_header, maxFrequency := 0\<rparr>
      in if length buf < DICT_HEADER_SIZE then (False, setError DICT_CORRUPT d)
         else
           let langLen = readU16LE buf 12;
               hdr = \<lparr>hdr_magic = readU32LE buf 0,
                      hdr_version = readU16LE buf 4,
                      hdr_flags = readU16LE buf 6,
                      entryCount = readU32LE buf 8,
                      hdr_languageTag =
                        (if langLen > 0 \<and> 14 + unat langLen \<le> DICT_HEADER_SIZE
                         then bytes_to_string (take (unat langLen) (drop 14 buf)) else [])\<rparr>;
               d1 = d\<lparr>dict_header := hdr\<rparr>
           in if hdr_magic hdr \<noteq> DICT_MAGIC then (False, setError DICT_CORRUPT d1)
              else if hdr_version hdr \<noteq> DICT_VERSION
              then (False, setError DICT_VERSION_MISMATCH d1)
              else
                (case parseEntries (unat (entryCount hdr)) buf DICT_HEADER_SIZE d1 of
                   (False, d2) \<Rightarrow> (False, d2)
                 | (True, d2) \<Rightarrow> (True, d2\<lparr>loaded := True\<rparr>)))"

definition unload :: "DictionaryLoader \<Rightarrow> DictionaryLoader" where
  "unload d =
     clearError (d\<lparr>entries := [], dict_header := empty_header, maxFrequency := 0,
                  loaded := False\<rparr>)"

definition loadFromMemory :: "8 word list \<Rightarrow> DictionaryLoader \<Rightarrow> bool \<times> DictionaryLoader" where
  "loadFromMemory buf d = parseFromBuffer buf (unload d)"

text \<open>
  \<^verbatim>\<open>load\<close> reads the file first; the file system is a map from paths to
  contents, and a path outside its domain cannot be opened.
\<close>

definition load ::
  "(string \<rightharpoonup> 8 word list) \<Rightarrow> string \<Rightarrow> DictionaryLoader \<Rightarrow> bool \<times> DictionaryLoader" where
  "load fs filePath d =
     (case fs filePath of
        None \<Rightarrow> (False, setError DICT_NOT_FOUND (unload d))
      | Some buf \<Rightarrow> parseFromBuffer buf (unload d))"

definition isLoaded :: "DictionaryLoader \<Rightarrow> bool" where
  "isLoaded d \<longleftrightarrow> loaded d"

definition getEntryCount :: "DictionaryLoader \<Rightarrow> 32 word" where
  "getEntryCount d = of_nat (length (entries d))"

definition getMaxFrequency :: "DictionaryLoader \<Rightarrow> 32 word" where
  "getMaxFrequency d = maxFrequency d"

definition getAllEntries :: "DictionaryLoader \<Rightarrow> DictionaryEntry list" where
  "getAllEntries d = (if loaded d then entries d else [])"

definition getEntriesStartingWith :: "DictionaryLoader \<Rightarrow> char \<Rightarrow> DictionaryEntry list" where
  "getEntriesStartingWith d startChar =
     (if \<not> loaded d then []
      else
        let lc = tolower_c startChar
        in filter (\<lambda>entry. entry_word entry \<noteq> [] \<and> tolower_c (hd (entry_word entry)) = lc)
             (entries d))"

definition getEntriesWithStartEnd ::
  "DictionaryLoader \<Rightarrow> char \<Rightarrow> char \<Rightarrow> DictionaryEntry list" where
  "getEntriesWithStartEnd d startChar endChar =
     (if \<not> loaded d then []
      else
        let lcS = tolower_c startChar;
            lcE = tolower_c endChar
        in filter (\<lambda>entry. entry_word entry \<noteq> []
                      \<and> tolower_c (hd (entry_word entry)) = lcS
                      \<and> tolower_c (last (entry_word entry)) = lcE)
             (entries d))"

definition lookup :: "DictionaryLoader \<Rightarrow> string \<Rightarrow> DictionaryEntry option" where
  "lookup d w =
     (if \<not> loaded d \<or> w = [] then None
      else
        let lcWord = map tolower_c w
        in find (\<lambda>entry. map tolower_c (entry_word entry) = lcWord) (entries d))"

section \<open>Path processor (PathProcessor.cpp)\<close>

record PathProcessor =
  pp_minPointDistance :: real
  pp_resampleCount :: nat

definition new_pathProcessor :: PathProcessor where
  "new_pathProcessor =
     \<lparr>pp_minPointDistance = MIN_POINT_DISTANCE_DP, pp_resampleCount = RESAMPLE_COUNT\<rparr>"

definition setMinPointDistance :: "real \<Rightarrow> PathProcessor \<Rightarrow> PathProcessor" where
  "setMinPointDistance distanceDp pp = pp\<lparr>pp_minPointDistance := distanceDp\<rparr>"

definition setResampleCount :: "int \<Rightarrow> PathProcessor \<Rightarrow> PathProcessor" where
  "setResampleCount n pp = (if n \<ge> 2 then pp\<lparr>pp_resampleCount := nat n\<rparr> else pp)"

text \<open>
  The loop of \<^verbatim>\<open>deduplicate\<close> runs over the points strictly between the first
  and the last; \<open>result\<close> is never empty in it.
\<close>

fun deduplicate_loop :: "real \<Rightarrow> GesturePoint list \<Rightarrow> GesturePoint list \<Rightarrow> GesturePoint list" where
  "deduplicate_loop m [] result = result"
| "deduplicate_loop m (cur # rest) result =
     (let lst = last result;
          dx = gp_x cur - gp_x lst;
          dy = gp_y cur - gp_y lst;
          dist = sqrt (dx * dx + dy * dy)
      in if dist \<ge> m then deduplicate_loop m rest (result @ [cur])
         else deduplicate_loop m rest result)"

definition deduplicate :: "PathProcessor \<Rightarrow> GesturePoint list \<Rightarrow> GesturePoint list" where
  "deduplicate pp points =
     (if length points \<le> 2 then points
      else deduplicate_loop (pp_minPointDistance pp) (butlast (tl points)) [hd points]
             @ [last points])"

fun arcLength_loop :: "real \<Rightarrow> GesturePoint list \<Rightarrow> real" where
  "arcLength_loop totalLength (p # q # ps) =
     (let dx = gp_x q - gp_x p; dy = gp_y q - gp_y p
      in arcLength_loop (totalLength + sqrt (dx * dx + dy * dy)) (q # ps))"
| "arcLength_loop totalLength ps = totalLength"

definition computeArcLength :: "GesturePoint list \<Rightarrow> real" where
  "computeArcLength points = arcLength_loop 0 points"

text \<open>\<^verbatim>\<open>static_cast<int64_t>\<close> of a float truncates towards zero.\<close>

definition trunc_to_int :: "real \<Rightarrow> int" where
  "trunc_to_int r = (if r \<ge> 0 then \<lfloor>r\<rfloor> else \<lceil>r\<rceil>)"

text \<open>
  The \<^verbatim>\<open>while\<close> loop of \<^verbatim>\<open>resample\<close>; it returns the points emitted so
  far and the working copy \<open>pts\<close> with the insertions made. Each round either emits a
  point or moves on along \<open>pts\<close>, which is why it ends.
\<close>

function resample_loop ::
  "nat \<Rightarrow> real \<Rightarrow> GesturePoint list \<Rightarrow> nat \<Rightarrow> real \<Rightarrow> GesturePoint list
     \<Rightarrow> GesturePoint list \<times> GesturePoint list" where
  "resample_loop cnt interval pts i D result =
     (if i < length pts \<and> int (length result) < int cnt - 1 then
        let dx = gp_x (pts ! i) - gp_x (pts ! (i - 1));
            dy = gp_y (pts ! i) - gp_y (pts ! (i - 1));
            d = sqrt (dx * dx + dy * dy)
        in if D + d \<ge> interval then
             let t = (interval - D) / d;
                 newPt = \<lparr>gp_x = gp_x (pts ! (i - 1)) + t * dx,
                          gp_y = gp_y (pts ! (i - 1)) + t * dy,
                          gp_timestamp = gp_timestamp (pts ! (i - 1))
                            + trunc_to_int (t * real_of_int
                                (gp_timestamp (pts ! i) - gp_timestamp (pts ! (i - 1))))\<rparr>
             in resample_loop cnt interval (take i pts @ newPt # drop i pts) (i + 1) 0
                  (result @ [newPt])
           else resample_loop cnt interval pts (i + 1) (D + d) result
      else (result, pts))"
  by pat_completeness auto
termination
  by (relation "measures [\<lambda>(cnt, interval, pts, i, D, result). nat (int cnt - 1 - int (length result)),
                          \<lambda>(cnt, interval, pts, i, D, result). length pts - i]") auto

declare resample_loop.simps [simp del]

text \<open>
  What follows the loop in \<^verbatim>\<open>resample\<close> and in \<^verbatim>\<open>resamplePoints\<close>: pad with
  the last working point up to \<open>cnt\<close> points, then \<^verbatim>\<open>resize\<close>.
\<close>

definition resample_from :: "nat \<Rightarrow> real \<Rightarrow> GesturePoint list \<Rightarrow> GesturePoint list" where
  "resample_from cnt totalLen points =
     (let interval = totalLen / real_of_int (int cnt - 1);
          (result, pts) = resample_loop cnt interval points 1 0 [points ! 0];
          filled = result @ replicate (cnt - length result) (last pts)
      in take cnt filled)"

definition resample :: "PathProcessor \<Rightarrow> GesturePoint list \<Rightarrow> GesturePoint list" where
  "resample pp points =
     (if length points < 2 then points
      else
        let totalLen = computeArcLength points
        in if totalLen < 0.000001 then replicate (pp_resampleCount pp) (points ! 0)
           else resample_from (pp_resampleCount pp) totalLen points)"

text \<open>
  \<^verbatim>\<open>normalizeBoundingBox\<close>; \<^verbatim>\<open>IdealPathGenerator::Impl::normalizeBB\<close> has
  the same body, so both are this function. A path that was just constructed has the key
  indices of \<^const>\<open>empty_path\<close>.
\<close>

definition normalizeBoundingBox :: "GesturePoint list \<Rightarrow> real \<Rightarrow> GesturePath" where
  "normalizeBoundingBox points totalArcLen =
     (if points = [] then empty_path
      else
        let minX = fold (\<lambda>p m. min m (gp_x p)) points (gp_x (points ! 0));
            maxX = fold (\<lambda>p m. max m (gp_x p)) points (gp_x (points ! 0));
            minY = fold (\<lambda>p m. min m (gp_y p)) points (gp_y (points ! 0));
            maxY = fold (\<lambda>p m. max m (gp_y p)) points (gp_y (points ! 0));
            width = maxX - minX;
            height = maxY - minY
        in if width < 0.001 \<and> height < 0.001
           then empty_path
                  \<lparr>path_points := replicate (length points) \<lparr>np_x = 0.5, np_y = 0.5, np_t = 0.5\<rparr>,
                   aspectRatio := 1.0,
                   totalArcLength := totalArcLen\<rparr>
           else
             let scale = max width height;
                 firstTs = gp_timestamp (hd points);
                 lastTs = gp_timestamp (last points);
                 tsRange = real_of_int (lastTs - firstTs)
             in empty_path
                  \<lparr>path_points :=
                     map (\<lambda>p. \<lparr>np_x = (gp_x p - minX) / scale,
                                np_y = (gp_y p - minY) / scale,
                                np_t = (if tsRange > 0
                                        then real_of_int (gp_timestamp p - firstTs) / tsRange
                                        else 0.5)\<rparr>) points,
                   aspectRatio := (if height > 0.001 then width / height else 1.0),
                   totalArcLength := totalArcLen\<rparr>)"

definition normalize :: "PathProcessor \<Rightarrow> RawGesturePath \<Rightarrow> KeyboardLayout \<Rightarrow> GesturePath" where
  "normalize pp raw layout =
     (if isEmpty raw then empty_path
      else
        let deduped = deduplicate pp (raw_points raw)
        in if length deduped < 2 then empty_path
           else
             let arcLen = computeArcLength deduped;
                 resampled = resample pp deduped;
                 path = normalizeBoundingBox resampled arcLen
             in path\<lparr>startKeyIndex :=
                        findNearestKey layout (gp_x (hd (raw_points raw))) (gp_y (hd (raw_points raw))),
                      endKeyIndex :=
                        findNearestKey layout (gp_x (last (raw_points raw)))
                          (gp_y (last (raw_points raw)))\<rparr>)"

section \<open>Ideal path generator (IdealPathGenerator.cpp)\<close>

text \<open>
  The cache is a \<^verbatim>\<open>std::unordered_map\<close> from strings to paths: an association
  list whose keys are distinct (every insertion goes through \<^const>\<open>AList.update\<close>),
  so that its length is the number of cached words.
\<close>

record IdealPathGenerator =
  gen_layout :: KeyboardLayout
  layoutSet :: bool
  cache :: "(string \<times> GesturePath) list"

definition empty_layout :: KeyboardLayout where
  "empty_layout = \<lparr>languageTag = [], keys = [], layoutWidth = 0.0, layoutHeight = 0.0\<rparr>"

definition new_generator :: IdealPathGenerator where
  "new_generator = \<lparr>gen_layout = empty_layout, layoutSet = False, cache = []\<rparr>"

definition resamplePoints :: "GesturePoint list \<Rightarrow> nat \<Rightarrow> GesturePoint list" where
  "resamplePoints points cnt =
     (if length points < 2 \<or> cnt < 2 then points
      else
        let totalLen = arcLength_loop 0 points
        in if totalLen < 0.000001 then replicate cnt (points ! 0)
           else resample_from cnt totalLen points)"

text \<open>The code point \<^verbatim>\<open>generate\<close> looks a character up by.\<close>

definition char_cp :: "char \<Rightarrow> int" where
  "char_cp ch = of_char (tolower_c ch)"

text \<open>
  The first loop of \<^verbatim>\<open>generate\<close>: unmapped characters are skipped, a key equal
  to the previous one is skipped, every other key contributes its centre.
\<close>

fun generate_keyPoints ::
  "KeyboardLayout \<Rightarrow> string \<Rightarrow> int \<Rightarrow> int \<Rightarrow> GesturePoint list \<Rightarrow> GesturePoint list" where
  "generate_keyPoints layout [] prevKeyIdx charIdx keyPoints = keyPoints"
| "generate_keyPoints layout (ch # rest) prevKeyIdx charIdx keyPoints =
     (let keyIdx = findKeyByCodePoint layout (char_cp ch)
      in if keyIdx < 0 then generate_keyPoints layout rest prevKeyIdx charIdx keyPoints
         else if keyIdx = prevKeyIdx
         then generate_keyPoints layout rest prevKeyIdx charIdx keyPoints
         else
           let key = keys layout ! nat keyIdx;
               pt = \<lparr>gp_x = centerX key, gp_y = centerY key, gp_timestamp = charIdx * 100\<rparr>
           in generate_keyPoints layout rest keyIdx (charIdx + 1) (keyPoints @ [pt]))"

definition generate :: "IdealPathGenerator \<Rightarrow> string \<Rightarrow> GesturePath" where
  "generate gen w =
     (if \<not> layoutSet gen then empty_path
      else
        let layout = gen_layout gen;
            keyPoints = generate_keyPoints layout w (-1) 0 []
        in if length keyPoints < 2 then empty_path
           else
             let arcLen = arcLength_loop 0 keyPoints;
                 resampled = resamplePoints keyPoints RESAMPLE_COUNT;
                 path = normalizeBoundingBox resampled arcLen;
                 cp0 = find (\<lambda>cp. findKeyByCodePoint layout cp \<ge> 0) (map char_cp w);
                 cpN = find (\<lambda>cp. findKeyByCodePoint layout cp \<ge> 0) (map char_cp (rev w))
             in path\<lparr>startKeyIndex :=
                        (case cp0 of Some cp \<Rightarrow> findKeyByCodePoint layout cp | None \<Rightarrow> -1),
                      endKeyIndex :=
                        (case cpN of Some cp \<Rightarrow> findKeyByCodePoint layout cp | None \<Rightarrow> -1)\<rparr>)"

definition setLayout :: "KeyboardLayout \<Rightarrow> IdealPathGenerator \<Rightarrow> IdealPathGenerator" where
  "setLayout layout gen = gen\<lparr>gen_layout := layout, layoutSet := True, cache := []\<rparr>"

definition getIdealPath ::
  "string \<Rightarrow> IdealPathGenerator \<Rightarrow> GesturePath \<times> IdealPathGenerator" where
  "getIdealPath w gen =
     (if \<not> layoutSet gen then (empty_path, gen)
      else
        let key = map tolower_c w
        in case map_of (cache gen) key of
             Some p \<Rightarrow> (p, gen)
           | None \<Rightarrow>
               let path = generate gen key
               in (path, gen\<lparr>cache := AList.update key path (cache gen)\<rparr>))"

definition pregenerate :: "string list \<Rightarrow> IdealPathGenerator \<Rightarrow> IdealPathGenerator" where
  "pregenerate ws gen = fold (\<lambda>w g. snd (getIdealPath w g)) ws gen"

definition clearCache :: "IdealPathGenerator \<Rightarrow> IdealPathGenerator" where
  "clearCache gen = gen\<lparr>cache := []\<rparr>"


section \<open>Engine (GestureEngine.cpp)\<close>

text \<open>
  The engine owns its parts by value. The error callback only observes the error that
  \<^verbatim>\<open>reportError\<close> stores, so the stored code is all that is kept of it.
\<close>

record GestureEngine =
  pathProcessor :: PathProcessor
  idealPathGen :: IdealPathGenerator
  scorer :: Scorer
  dictLoader :: DictionaryLoader
  eng_layout :: KeyboardLayout
  eng_config :: ScoringConfig
  lastError :: ErrorCode
  initialized :: bool

definition new_engine :: GestureEngine where
  "new_engine =
     \<lparr>pathProcessor = new_pathProcessor,
      idealPathGen = new_generator,
      scorer = \<lparr>scorer_config = default_config\<rparr>,
      dictLoader = new_loader,
      eng_layout = empty_layout,
      eng_config = default_config,
      lastError = NONE,
      initialized = False\<rparr>"

definition reportError :: "ErrorCode \<Rightarrow> GestureEngine \<Rightarrow> GestureEngine" where
  "reportError code e = e\<lparr>lastError := code\<rparr>"

fun transitions_loop :: "KeyboardLayout \<Rightarrow> GesturePoint list \<Rightarrow> int \<Rightarrow> int \<Rightarrow> int" where
  "transitions_loop layout [] prevKey transitions = transitions"
| "transitions_loop layout (pt # pts) prevKey transitions =
     (let key = findNearestKey layout (gp_x pt) (gp_y pt)
      in if key \<ge> 0 \<and> key \<noteq> prevKey
         then transitions_loop layout pts key (transitions + 1)
         else transitions_loop layout pts prevKey transitions)"

definition estimateWordLengthByKeyTransitions :: "GestureEngine \<Rightarrow> RawGesturePath \<Rightarrow> real" where
  "estimateWordLengthByKeyTransitions e rawPath =
     (if length (raw_points rawPath) < 2 then 1.0
      else max 1.0 (real_of_int (transitions_loop (eng_layout e) (raw_points rawPath) (-1) 0)))"

definition finish_init :: "KeyboardLayout \<Rightarrow> GestureEngine \<Rightarrow> GestureEngine" where
  "finish_init layout e =
     e\<lparr>eng_layout := layout,
       idealPathGen := setLayout layout (idealPathGen e),
       scorer := scorer_configure (eng_config e) (scorer e),
       initialized := True\<rparr>"

definition init ::
  "(string \<rightharpoonup> 8 word list) \<Rightarrow> KeyboardLayout \<Rightarrow> string \<Rightarrow> GestureEngine
     \<Rightarrow> bool \<times> GestureEngine" where
  "init fs layout dictPath e =
     (if \<not> layout_isValid layout then (False, reportError LAYOUT_INVALID e)
      else
        case load fs dictPath (dictLoader e) of
          (False, d) \<Rightarrow> (False, reportError (dict_lastError d) (e\<lparr>dictLoader := d\<rparr>))
        | (True, d) \<Rightarrow> (True, finish_init layout (e\<lparr>dictLoader := d\<rparr>)))"

definition initWithData ::
  "KeyboardLayout \<Rightarrow> 8 word list \<Rightarrow> GestureEngine \<Rightarrow> bool \<times> GestureEngine" where
  "initWithData layout dictData e =
     (if \<not> layout_isValid layout then (False, reportError LAYOUT_INVALID e)
      else
        case loadFromMemory dictData (dictLoader e) of
          (False, d) \<Rightarrow> (False, reportError (dict_lastError d) (e\<lparr>dictLoader := d\<rparr>))
        | (True, d) \<Rightarrow> (True, finish_init layout (e\<lparr>dictLoader := d\<rparr>)))"

text \<open>Step 2 of \<^verbatim>\<open>recognize\<close>: a key's letter, or the character 0 for none.\<close>

definition keyChar :: "int \<Rightarrow> char" where
  "keyChar cp =
     (if 97 \<le> cp \<and> cp \<le> 122 then char_of cp
      else if 65 \<le> cp \<and> cp \<le> 90 then tolower_c (char_of cp)
      else CHR 0x00)"

definition startEndChars :: "KeyboardLayout \<Rightarrow> GesturePath \<Rightarrow> char \<times> char \<times> bool" where
  "startEndChars layout normalizedPath =
     (if startKeyIndex normalizedPath \<ge> 0
         \<and> startKeyIndex normalizedPath < int (length (keys layout))
         \<and> endKeyIndex normalizedPath \<ge> 0
         \<and> endKeyIndex normalizedPath < int (length (keys layout))
      then
        let startChar = keyChar (codePoint (keys layout ! nat (startKeyIndex normalizedPath)));
            endChar = keyChar (codePoint (keys layout ! nat (endKeyIndex normalizedPath)))
        in (startChar, endChar, startChar \<noteq> CHR 0x00 \<and> endChar \<noteq> CHR 0x00)
      else (CHR 0x00, CHR 0x00, False))"

text \<open>Step 3: candidate filtering, then the word-length filter with its fallback.\<close>

definition selectCandidates ::
  "DictionaryLoader \<Rightarrow> char \<Rightarrow> char \<Rightarrow> bool \<Rightarrow> DictionaryEntry list" where
  "selectCandidates d startChar endChar hasStartEnd =
     (let d1 = (if hasStartEnd then getEntriesWithStartEnd d startChar endChar else []);
          d2 = (if d1 = [] \<and> startChar \<noteq> CHR 0x00 then getEntriesStartingWith d startChar
                else d1)
      in if d2 = [] then getAllEntries d else d2)"

definition lengthFilter :: "real \<Rightarrow> real \<Rightarrow> DictionaryEntry list \<Rightarrow> DictionaryEntry list" where
  "lengthFilter estimatedLen tol dictEntries =
     (let filtered = filter (\<lambda>entry. \<bar>real (length (entry_word entry)) - estimatedLen\<bar> \<le> tol)
                       dictEntries
      in if filtered = [] then dictEntries else filtered)"

text \<open>
  Step 4: the scoring loop. Every entry asks the generator for its ideal path (which may
  add to the cache); an entry with an invalid ideal path is skipped.
\<close>

fun score_loop ::
  "Scorer \<Rightarrow> GesturePath \<Rightarrow> DictionaryEntry list \<Rightarrow> IdealPathGenerator
     \<Rightarrow> (DictionaryEntry \<times> real) list
     \<Rightarrow> (DictionaryEntry \<times> real) list \<times> IdealPathGenerator" where
  "score_loop s normalizedPath [] gen scored = (scored, gen)"
| "score_loop s normalizedPath (entry # rest) gen scored =
     (case getIdealPath (entry_word entry) gen of
        (ideal, gen') \<Rightarrow>
          if \<not> isValid ideal then score_loop s normalizedPath rest gen' scored
          else score_loop s normalizedPath rest gen'
                 (scored @ [(entry, computeDTWDistance s normalizedPath ideal)]))"

text \<open>Step 5: the loop over the scored entries that finds the DTW range.\<close>

fun dtwRange_loop :: "(DictionaryEntry \<times> real) list \<Rightarrow> real \<Rightarrow> real \<Rightarrow> real \<times> real" where
  "dtwRange_loop [] rawMaxDTW minCandDTW = (rawMaxDTW, minCandDTW)"
| "dtwRange_loop ((entry, dtwDistance) # rest) rawMaxDTW minCandDTW =
     (if dtwDistance < FLT_MAX
      then dtwRange_loop rest
             (if dtwDistance > rawMaxDTW then dtwDistance else rawMaxDTW)
             (if dtwDistance < minCandDTW then dtwDistance else minCandDTW)
      else dtwRange_loop rest rawMaxDTW minCandDTW)"

definition rawMaxDTW_of :: "(DictionaryEntry \<times> real) list \<Rightarrow> real" where
  "rawMaxDTW_of scored = fst (dtwRange_loop scored 0.0 FLT_MAX)"

definition minCandDTW_of :: "(DictionaryEntry \<times> real) list \<Rightarrow> real" where
  "minCandDTW_of scored = snd (dtwRange_loop scored 0.0 FLT_MAX)"

definition maxDTW_of :: "ScoringConfig \<Rightarrow> (DictionaryEntry \<times> real) list \<Rightarrow> real" where
  "maxDTW_of config scored =
     (if length scored \<le> 1 then max (rawMaxDTW_of scored) (maxDTWFloor config)
      else max (rawMaxDTW_of scored) 0.01)"

definition effectiveAlpha_of :: "ScoringConfig \<Rightarrow> (DictionaryEntry \<times> real) list \<Rightarrow> real" where
  "effectiveAlpha_of config scored =
     (let rawRange = (if minCandDTW_of scored < FLT_MAX
                      then rawMaxDTW_of scored - minCandDTW_of scored else 0.0);
          effectiveAlpha = frequencyWeight config
      in if length scored > 1 \<and> rawRange < 0.5
         then effectiveAlpha * max 0.1 (rawRange / 0.5)
         else effectiveAlpha)"

text \<open>Step 6: the candidate built for one scored entry.\<close>

definition makeCandidate ::
  "real \<Rightarrow> real \<Rightarrow> 32 word \<Rightarrow> DictionaryEntry \<times> real \<Rightarrow> GestureCandidate" where
  "makeCandidate maxDTW effectiveAlpha maxFreq s =
     (let entry = fst s;
          dtwDistance = snd s;
          normalizedDTW = (if maxDTW > 0 \<and> dtwDistance < FLT_MAX
                           then min 1.0 (dtwDistance / maxDTW) else 1.0);
          normalizedFreq = (if maxFreq > 0
                            then min 1.0 (real (unat (frequency entry)) / real (unat maxFreq))
                            else 0.0);
          finalScore = (1.0 - effectiveAlpha) * normalizedDTW
                         + effectiveAlpha * (1.0 - normalizedFreq)
      in \<lparr>cand_word = entry_word entry,
          confidence = 1.0 - max 0.0 (min 1.0 finalScore),
          sourceFlags = SOURCE_MAIN_DICT,
          dtwScore = dtwDistance,
          frequencyScore = (if maxFreq > 0
                            then real (unat (frequency entry)) / real (unat maxFreq)
                            else 0.0)\<rparr>)"

text \<open>
  Step 7 calls \<^verbatim>\<open>std::sort\<close> with this comparator. The library's sort is not part
  of the repository: it is the parameter \<open>srt\<close> of the engine's operations. What the
  C++ standard promises of it is \<open>std_sort_contract\<close> below; the sort of the GNU
  library, which a build with GCC runs, is \<open>std_sort\<close> below.
\<close>

definition byConfidence :: "GestureCandidate \<Rightarrow> GestureCandidate \<Rightarrow> bool" where
  "byConfidence a b \<longleftrightarrow> confidence a > confidence b"

definition sortAndPrune ::
  "((GestureCandidate \<Rightarrow> GestureCandidate \<Rightarrow> bool) \<Rightarrow> GestureCandidate list \<Rightarrow> GestureCandidate list)
     \<Rightarrow> int \<Rightarrow> GestureCandidate list \<Rightarrow> GestureCandidate list" where
  "sortAndPrune srt maxCandidates results =
     (let sorted_results = srt byConfidence results
      in if int (length sorted_results) > maxCandidates
         then take (nat maxCandidates) sorted_results
         else sorted_results)"

definition recognize ::
  "((GestureCandidate \<Rightarrow> GestureCandidate \<Rightarrow> bool) \<Rightarrow> GestureCandidate list \<Rightarrow> GestureCandidate list)
     \<Rightarrow> GestureEngine \<Rightarrow> RawGesturePath \<Rightarrow> int \<Rightarrow> GestureCandidate list \<times> GestureEngine" where
  "recognize srt e rawPath maxCandidates0 =
     (if \<not> initialized e then ([], reportError ENGINE_NOT_INITIALIZED e)
      else
        let maxCandidates = max 1 (min maxCandidates0 MAX_MAX_CANDIDATES)
        in if isEmpty rawPath then ([], reportError PATH_TOO_SHORT e)
           else
             let normalizedPath = normalize (pathProcessor e) rawPath (eng_layout e)
             in if \<not> isValid normalizedPath then ([], e)
                else
                  case startEndChars (eng_layout e) normalizedPath of
                    (startChar, endChar, hasStartEnd) \<Rightarrow>
                      let dictEntries = selectCandidates (dictLoader e) startChar endChar hasStartEnd;
                          estimatedLen = estimateWordLengthByKeyTransitions e rawPath;
                          tol = lengthFilterTolerance (eng_config e);
                          filtered = lengthFilter estimatedLen tol dictEntries
                      in case score_loop (scorer e) normalizedPath filtered (idealPathGen e) [] of
                           (scored, gen') \<Rightarrow>
                             let e' = e\<lparr>idealPathGen := gen'\<rparr>
                             in if scored = [] then ([], e')
                                else
                                  let maxDTW = maxDTW_of (eng_config e) scored;
                                      effectiveAlpha = effectiveAlpha_of (eng_config e) scored;
                                      maxFreq = getMaxFrequency (dictLoader e);
                                      results = map (makeCandidate maxDTW effectiveAlpha maxFreq) scored
                                  in (sortAndPrune srt maxCandidates results, e'))"

definition shutdown :: "GestureEngine \<Rightarrow> GestureEngine" where
  "shutdown e =
     e\<lparr>dictLoader := unload (dictLoader e),
       idealPathGen := clearCache (idealPathGen e),
       initialized := False\<rparr>"

definition isInitialized :: "GestureEngine \<Rightarrow> bool" where
  "isInitialized e \<longleftrightarrow> initialized e"

definition updateLayout :: "KeyboardLayout \<Rightarrow> GestureEngine \<Rightarrow> bool \<times> GestureEngine" where
  "updateLayout layout e =
     (if \<not> initialized e then (False, e)
      else if \<not> layout_isValid layout then (False, reportError LAYOUT_INVALID e)
      else (True, e\<lparr>eng_layout := layout, idealPathGen := setLayout layout (idealPathGen e)\<rparr>))"

definition configure :: "ScoringConfig \<Rightarrow> GestureEngine \<Rightarrow> GestureEngine" where
  "configure config e = e\<lparr>eng_config := config, scorer := scorer_configure config (scorer e)\<rparr>"

section \<open>The library sort\<close>

text \<open>
  Modelled from the C++ standard, not from the repository: \<^verbatim>\<open>std::sort(first, last,
  comp)\<close> requires the comparator \<open>cmp\<close> to be a strict weak ordering and leaves the range a
  permutation of itself in which no element is \<open>cmp\<close>-less than an earlier one. It
  promises nothing about the order of equivalent elements.
\<close>

definition strict_weak_order :: "('a \<Rightarrow> 'a \<Rightarrow> bool) \<Rightarrow> bool" where
  "strict_weak_order cmp \<longleftrightarrow>
     (\<forall>a. \<not> cmp a a)
     \<and> (\<forall>a b c. cmp a b \<and> cmp b c \<longrightarrow> cmp a c)
     \<and> (\<forall>a b c. \<not> cmp a b \<and> \<not> cmp b a \<and> \<not> cmp b c \<and> \<not> cmp c b
            \<longrightarrow> \<not> cmp a c \<and> \<not> cmp c a)"

definition std_sort_contract :: "(('a \<Rightarrow> 'a \<Rightarrow> bool) \<Rightarrow> 'a list \<Rightarrow> 'a list) \<Rightarrow> bool" where
  "std_sort_contract srt \<longleftrightarrow>
     (\<forall>cmp xs. strict_weak_order cmp \<longrightarrow>
        mset (srt cmp xs) = mset xs \<and> sorted_wrt (\<lambda>a b. \<not> cmp b a) (srt cmp xs))"

text \<open>
  A sort that meets the contract: insertion sort, which keeps equivalent elements in
  their order.
\<close>

fun insort_by :: "('a \<Rightarrow> 'a \<Rightarrow> bool) \<Rightarrow> 'a \<Rightarrow> 'a list \<Rightarrow> 'a list" where
  "insort_by cmp x [] = [x]"
| "insort_by cmp x (y # ys) = (if cmp y x then y # insort_by cmp x ys else x # y # ys)"

definition insertion_sort :: "('a \<Rightarrow> 'a \<Rightarrow> bool) \<Rightarrow> 'a list \<Rightarrow> 'a list" where
  "insertion_sort cmp xs = foldr (insort_by cmp) xs []"

section \<open>The sort the program runs (GNU libstdc++)\<close>

text \<open>
  \<^verbatim>\<open>std::sort\<close> as the GNU C++ library implements it (\<^verbatim>\<open>bits/stl_algo.h\<close>
  and \<^verbatim>\<open>bits/stl_heap.h\<close>): introsort down to ranges of 16 elements, heap sort
  when the recursion depth is used up, then one pass of insertion sort. The vector is a
  list, an iterator is a position in it, and every function returns the vector as it
  leaves it. The names are those of the library without the leading underscores;
  \<open>lst\<close> stands for \<^verbatim>\<open>__last\<close> and \<open>cut1\<close> for \<^verbatim>\<open>__cut\<close>.

  The library's unguarded loops have no bound of their own: with a strict weak ordering
  an element of the range stops them. Leaving the vector is undefined in C++; here such a
  loop stops at the end of the list it would leave.
\<close>

definition S_threshold :: nat where
  "S_threshold = 16"

text \<open>\<^verbatim>\<open>std::__lg(n)\<close>: the position of the highest bit set.\<close>

fun lg :: "nat \<Rightarrow> nat" where
  "lg n = (if n \<le> 1 then 0 else Suc (lg (n div 2)))"

declare lg.simps [simp del]

definition iter_swap :: "nat \<Rightarrow> nat \<Rightarrow> 'a list \<Rightarrow> 'a list" where
  "iter_swap a b xs = xs[a := xs ! b, b := xs ! a]"

definition move_median_to_first ::
  "('a \<Rightarrow> 'a \<Rightarrow> bool) \<Rightarrow> nat \<Rightarrow> nat \<Rightarrow> nat \<Rightarrow> nat \<Rightarrow> 'a list \<Rightarrow> 'a list" where
  "move_median_to_first cmp result a b c xs =
     (if cmp (xs ! a) (xs ! b) then
        (if cmp (xs ! b) (xs ! c) then iter_swap result b xs
         else if cmp (xs ! a) (xs ! c) then iter_swap result c xs
         else iter_swap result a xs)
      else if cmp (xs ! a) (xs ! c) then iter_swap result a xs
      else if cmp (xs ! b) (xs ! c) then iter_swap result c xs
      else iter_swap result b xs)"

text \<open>
  \<^verbatim>\<open>__unguarded_linear_insert(last)\<close>: the value at \<open>lst\<close> moves down past
  every element it is less than; \<open>next\<close> is always the position before \<open>lst\<close>.
\<close>

fun linear_insert_loop :: "('a \<Rightarrow> 'a \<Rightarrow> bool) \<Rightarrow> 'a \<Rightarrow> nat \<Rightarrow> 'a list \<Rightarrow> 'a list" where
  "linear_insert_loop cmp val lst xs =
     (if 0 < lst \<and> cmp val (xs ! (lst - 1))
      then linear_insert_loop cmp val (lst - 1) (xs[lst := xs ! (lst - 1)])
      else xs[lst := val])"

declare linear_insert_loop.simps [simp del]

definition unguarded_linear_insert :: "('a \<Rightarrow> 'a \<Rightarrow> bool) \<Rightarrow> nat \<Rightarrow> 'a list \<Rightarrow> 'a list" where
  "unguarded_linear_insert cmp lst xs = linear_insert_loop cmp (xs ! lst) lst xs"

text \<open>\<^verbatim>\<open>std::move_backward(first, last, result)\<close>, from the last element down.\<close>

function move_backward :: "nat \<Rightarrow> nat \<Rightarrow> nat \<Rightarrow> 'a list \<Rightarrow> 'a list" where
  "move_backward first lst result xs =
     (if first < lst
      then move_backward first (lst - 1) (result - 1) (xs[result - 1 := xs ! (lst - 1)])
      else xs)"
  by pat_completeness auto
termination by (relation "measure (\<lambda>(first, lst, result, xs). lst)") auto

declare move_backward.simps [simp del]

text \<open>
  \<^verbatim>\<open>__insertion_sort(first, last)\<close>: the loop
  \<^verbatim>\<open>for (i = first + 1; i != last; ++i)\<close>.
\<close>

function insertion_sort_loop ::
  "('a \<Rightarrow> 'a \<Rightarrow> bool) \<Rightarrow> nat \<Rightarrow> nat \<Rightarrow> nat \<Rightarrow> 'a list \<Rightarrow> 'a list" where
  "insertion_sort_loop cmp first i lst xs =
     (if i < lst
      then insertion_sort_loop cmp first (Suc i) lst
             (if cmp (xs ! i) (xs ! first)
              then (move_backward first i (Suc i) xs)[first := xs ! i]
              else unguarded_linear_insert cmp i xs)
      else xs)"
  by pat_completeness auto
termination by (relation "measure (\<lambda>(cmp, first, i, lst, xs). lst - i)") auto

declare insertion_sort_loop.simps [simp del]

definition stl_insertion_sort ::
  "('a \<Rightarrow> 'a \<Rightarrow> bool) \<Rightarrow> nat \<Rightarrow> nat \<Rightarrow> 'a list \<Rightarrow> 'a list" where
  "stl_insertion_sort cmp first lst xs =
     (if first = lst then xs else insertion_sort_loop cmp first (Suc first) lst xs)"

function unguarded_insertion_sort ::
  "('a \<Rightarrow> 'a \<Rightarrow> bool) \<Rightarrow> nat \<Rightarrow> nat \<Rightarrow> 'a list \<Rightarrow> 'a list" where
  "unguarded_insertion_sort cmp i lst xs =
     (if i < lst
      then unguarded_insertion_sort cmp (Suc i) lst (unguarded_linear_insert cmp i xs)
      else xs)"
  by pat_completeness auto
termination by (relation "measure (\<lambda>(cmp, i, lst, xs). lst - i)") auto

declare unguarded_insertion_sort.simps [simp del]

definition final_insertion_sort ::
  "('a \<Rightarrow> 'a \<Rightarrow> bool) \<Rightarrow> nat \<Rightarrow> nat \<Rightarrow> 'a list \<Rightarrow> 'a list" where
  "final_insertion_sort cmp first lst xs =
     (if lst - first > S_threshold
      then unguarded_insertion_sort cmp (first + S_threshold) lst
             (stl_insertion_sort cmp first (first + S_threshold) xs)
      else stl_insertion_sort cmp first lst xs)"

text \<open>
  \<^verbatim>\<open>__unguarded_partition(first, last, pivot)\<close>: its two inner loops,
  \<^verbatim>\<open>while (comp(first, pivot)) ++first\<close> and
  \<^verbatim>\<open>while (comp(pivot, last)) --last\<close>, then the outer one.
\<close>

function scan_up :: "('a \<Rightarrow> 'a \<Rightarrow> bool) \<Rightarrow> 'a list \<Rightarrow> nat \<Rightarrow> nat \<Rightarrow> nat" where
  "scan_up cmp xs pivot first =
     (if first < length xs \<and> cmp (xs ! first) (xs ! pivot)
      then scan_up cmp xs pivot (Suc first) else first)"
  by pat_completeness auto
termination by (relation "measure (\<lambda>(cmp, xs, pivot, first). length xs - first)") auto

declare scan_up.simps [simp del]

fun scan_down :: "('a \<Rightarrow> 'a \<Rightarrow> bool) \<Rightarrow> 'a list \<Rightarrow> nat \<Rightarrow> nat \<Rightarrow> nat" where
  "scan_down cmp xs pivot lst =
     (if 0 < lst \<and> cmp (xs ! pivot) (xs ! lst)
      then scan_down cmp xs pivot (lst - 1) else lst)"

declare scan_down.simps [simp del]

function unguarded_partition ::
  "('a \<Rightarrow> 'a \<Rightarrow> bool) \<Rightarrow> nat \<Rightarrow> nat \<Rightarrow> nat \<Rightarrow> 'a list \<Rightarrow> nat \<times> 'a list" where
  "unguarded_partition cmp pivot first lst xs =
     (let first1 = scan_up cmp xs pivot first;
          lst1 = scan_down cmp xs pivot (lst - 1)
      in if \<not> first1 < lst1 then (first1, xs)
         else unguarded_partition cmp pivot (Suc first1) lst1 (iter_swap first1 lst1 xs))"
  by pat_completeness auto
termination
proof (relation "measure (\<lambda>(cmp, pivot, first, lst, xs). lst - first)", goal_cases)
  case 1
  show ?case by simp
next
  case (2 cmp pivot first lst xs first1 lst1)
  have up: "i \<le> scan_up c ys p i" for c :: "'a \<Rightarrow> 'a \<Rightarrow> bool" and ys p i
    by (induction c ys p i rule: scan_up.induct) (subst scan_up.simps, auto)
  have down: "scan_down c ys p j \<le> j" for c :: "'a \<Rightarrow> 'a \<Rightarrow> bool" and ys p j
    by (induction c ys p j rule: scan_down.induct) (subst scan_down.simps, auto)
  have "first \<le> first1" using 2 up by metis
  moreover have "lst1 \<le> lst - 1" using 2 down by metis
  ultimately show ?case using 2 by auto
qed

declare unguarded_partition.simps [simp del]

definition unguarded_partition_pivot ::
  "('a \<Rightarrow> 'a \<Rightarrow> bool) \<Rightarrow> nat \<Rightarrow> nat \<Rightarrow> 'a list \<Rightarrow> nat \<times> 'a list" where
  "unguarded_partition_pivot cmp first lst xs =
     (let mid = first + (lst - first) div 2
      in unguarded_partition cmp first (first + 1) lst
           (move_median_to_first cmp first (first + 1) mid (lst - 1) xs))"

text \<open>
  The heap functions; \<open>holeIndex\<close>, \<open>topIndex\<close>, \<open>parent\<close>, \<open>secondChild\<close>
  and \<open>len\<close> are distances from \<open>first\<close>.
\<close>

function push_heap ::
  "('a \<Rightarrow> 'a \<Rightarrow> bool) \<Rightarrow> nat \<Rightarrow> nat \<Rightarrow> nat \<Rightarrow> 'a \<Rightarrow> 'a list \<Rightarrow> 'a list" where
  "push_heap cmp first holeIndex topIndex val xs =
     (let parent = (holeIndex - 1) div 2
      in if holeIndex > topIndex \<and> cmp (xs ! (first + parent)) val
         then push_heap cmp first parent topIndex val (xs[first + holeIndex := xs ! (first + parent)])
         else xs[first + holeIndex := val])"
  by pat_completeness auto
termination by (relation "measure (\<lambda>(cmp, first, holeIndex, topIndex, val, xs). holeIndex)") auto

declare push_heap.simps [simp del]

function adjust_heap_loop ::
  "('a \<Rightarrow> 'a \<Rightarrow> bool) \<Rightarrow> nat \<Rightarrow> nat \<Rightarrow> nat \<Rightarrow> nat \<Rightarrow> 'a list \<Rightarrow> nat \<times> nat \<times> 'a list" where
  "adjust_heap_loop cmp first len holeIndex secondChild xs =
     (if secondChild < (len - 1) div 2
      then let sc = 2 * (secondChild + 1);
               sc1 = (if cmp (xs ! (first + sc)) (xs ! (first + (sc - 1))) then sc - 1 else sc)
           in adjust_heap_loop cmp first len sc1 sc1 (xs[first + holeIndex := xs ! (first + sc1)])
      else (holeIndex, secondChild, xs))"
  by pat_completeness auto
termination
  by (relation "measure (\<lambda>(cmp, first, len, holeIndex, secondChild, xs).
                   (len - 1) div 2 - secondChild)")
     (auto simp: Let_def)

declare adjust_heap_loop.simps [simp del]

definition adjust_heap ::
  "('a \<Rightarrow> 'a \<Rightarrow> bool) \<Rightarrow> nat \<Rightarrow> nat \<Rightarrow> nat \<Rightarrow> 'a \<Rightarrow> 'a list \<Rightarrow> 'a list" where
  "adjust_heap cmp first holeIndex0 len val xs0 =
     (case adjust_heap_loop cmp first len holeIndex0 holeIndex0 xs0 of
        (holeIndex, secondChild, xs) \<Rightarrow>
          if len mod 2 = 0 \<and> int secondChild = (int len - 2) div 2
          then let sc = 2 * (secondChild + 1)
               in push_heap cmp first (sc - 1) holeIndex0 val
                    (xs[first + holeIndex := xs ! (first + (sc - 1))])
          else push_heap cmp first holeIndex holeIndex0 val xs)"

definition pop_heap ::
  "('a \<Rightarrow> 'a \<Rightarrow> bool) \<Rightarrow> nat \<Rightarrow> nat \<Rightarrow> nat \<Rightarrow> 'a list \<Rightarrow> 'a list" where
  "pop_heap cmp first lst result xs =
     adjust_heap cmp first 0 (lst - first) (xs ! result) (xs[result := xs ! first])"

text \<open>
  \<^verbatim>\<open>__make_heap\<close>: the loop from \<open>parent = (len - 2) / 2\<close> down to 0.
\<close>

fun make_heap_loop ::
  "('a \<Rightarrow> 'a \<Rightarrow> bool) \<Rightarrow> nat \<Rightarrow> nat \<Rightarrow> nat \<Rightarrow> 'a list \<Rightarrow> 'a list" where
  "make_heap_loop cmp first len parent xs =
     (let xs1 = adjust_heap cmp first parent len (xs ! (first + parent)) xs
      in if parent = 0 then xs1 else make_heap_loop cmp first len (parent - 1) xs1)"

declare make_heap_loop.simps [simp del]

definition make_heap :: "('a \<Rightarrow> 'a \<Rightarrow> bool) \<Rightarrow> nat \<Rightarrow> nat \<Rightarrow> 'a list \<Rightarrow> 'a list" where
  "make_heap cmp first lst xs =
     (if lst - first < 2 then xs
      else make_heap_loop cmp first (lst - first) ((lst - first - 2) div 2) xs)"

function sort_heap :: "('a \<Rightarrow> 'a \<Rightarrow> bool) \<Rightarrow> nat \<Rightarrow> nat \<Rightarrow> 'a list \<Rightarrow> 'a list" where
  "sort_heap cmp first lst xs =
     (if lst - first > 1
      then sort_heap cmp first (lst - 1) (pop_heap cmp first (lst - 1) (lst - 1) xs)
      else xs)"
  by pat_completeness auto
termination by (relation "measure (\<lambda>(cmp, first, lst, xs). lst - first)") auto

declare sort_heap.simps [simp del]

function heap_select_loop ::
  "('a \<Rightarrow> 'a \<Rightarrow> bool) \<Rightarrow> nat \<Rightarrow> nat \<Rightarrow> nat \<Rightarrow> nat \<Rightarrow> 'a list \<Rightarrow> 'a list" where
  "heap_select_loop cmp first middle i lst xs =
     (if i < lst
      then heap_select_loop cmp first middle (Suc i) lst
             (if cmp (xs ! i) (xs ! first) then pop_heap cmp first middle i xs else xs)
      else xs)"
  by pat_completeness auto
termination by (relation "measure (\<lambda>(cmp, first, middle, i, lst, xs). lst - i)") auto

declare heap_select_loop.simps [simp del]

definition heap_select ::
  "('a \<Rightarrow> 'a \<Rightarrow> bool) \<Rightarrow> nat \<Rightarrow> nat \<Rightarrow> nat \<Rightarrow> 'a list \<Rightarrow> 'a list" where
  "heap_select cmp first middle lst xs =
     heap_select_loop cmp first middle middle lst (make_heap cmp first middle xs)"

definition partial_sort ::
  "('a \<Rightarrow> 'a \<Rightarrow> bool) \<Rightarrow> nat \<Rightarrow> nat \<Rightarrow> nat \<Rightarrow> 'a list \<Rightarrow> 'a list" where
  "partial_sort cmp first middle lst xs =
     sort_heap cmp first middle (heap_select cmp first middle lst xs)"

text \<open>
  \<^verbatim>\<open>__introsort_loop\<close>: the \<^verbatim>\<open>while\<close> loop sorts the upper part by a
  recursive call and goes on with the lower part; each round uses up one unit of
  \<open>depth_limit\<close>, which is why it ends.
\<close>

function introsort_loop ::
  "('a \<Rightarrow> 'a \<Rightarrow> bool) \<Rightarrow> nat \<Rightarrow> nat \<Rightarrow> nat \<Rightarrow> 'a list \<Rightarrow> 'a list" where
  "introsort_loop cmp first lst depth_limit xs =
     (if lst - first > S_threshold
      then if depth_limit = 0 then partial_sort cmp first lst lst xs
           else case unguarded_partition_pivot cmp first lst xs of
                  (cut1, xs1) \<Rightarrow>
                    introsort_loop cmp first cut1 (depth_limit - 1)
                      (introsort_loop cmp cut1 lst (depth_limit - 1) xs1)
      else xs)"
  by pat_completeness auto
termination by (relation "measure (\<lambda>(cmp, first, lst, depth_limit, xs). depth_limit)") auto

declare introsort_loop.simps [simp del]

text \<open>
  \<^verbatim>\<open>std::sort(results.begin(), results.end(), comp)\<close>: \<open>first\<close> is position 0 and
  \<open>lst\<close> the length of the vector.
\<close>

definition std_sort :: "('a \<Rightarrow> 'a \<Rightarrow> bool) \<Rightarrow> 'a list \<Rightarrow> 'a list" where
  "std_sort cmp xs =
     (if xs = [] then xs
      else final_insertion_sort cmp 0 (length xs)
             (introsort_loop cmp 0 (length xs) (lg (length xs) * 2) xs))"

section \<open>Test helpers (tests/TestHelpers.h)\<close>

definition mkKey :: "char \<Rightarrow> int \<Rightarrow> real \<Rightarrow> real \<Rightarrow> real \<Rightarrow> real \<Rightarrow> KeyDescriptor" where
  "mkKey label cp cx cy w h =
     \<lparr>key_label = [label], codePoint = cp, centerX = cx, centerY = cy,
      key_width = w, key_height = h\<rparr>"

definition makeQwertyLayout :: KeyboardLayout where
  "makeQwertyLayout =
     \<lparr>languageTag = ''en-US'',
      keys =
        [mkKey CHR ''q'' 113 16 26 32 52,  mkKey CHR ''w'' 119 48 26 32 52,
         mkKey CHR ''e'' 101 80 26 32 52,  mkKey CHR ''r'' 114 112 26 32 52,
         mkKey CHR ''t'' 116 144 26 32 52, mkKey CHR ''y'' 121 176 26 32 52,
         mkKey CHR ''u'' 117 208 26 32 52, mkKey CHR ''i'' 105 240 26 32 52,
         mkKey CHR ''o'' 111 272 26 32 52, mkKey CHR ''p'' 112 304 26 32 52,
         mkKey CHR ''a'' 97 32 80 32 52,   mkKey CHR ''s'' 115 64 80 32 52,
         mkKey CHR ''d'' 100 96 80 32 52,  mkKey CHR ''f'' 102 128 80 32 52,
         mkKey CHR ''g'' 103 160 80 32 52, mkKey CHR ''h'' 104 192 80 32 52,
         mkKey CHR ''j'' 106 224 80 32 52, mkKey CHR ''k'' 107 256 80 32 52,
         mkKey CHR ''l'' 108 288 80 32 52,
         mkKey CHR ''z'' 122 64 134 32 52, mkKey CHR ''x'' 120 96 134 32 52,
         mkKey CHR ''c'' 99 128 134 32 52, mkKey CHR ''v'' 118 160 134 32 52,
         mkKey CHR ''b'' 98 192 134 32 52, mkKey CHR ''n'' 110 224 134 32 52,
         mkKey CHR ''m'' 109 256 134 32 52],
      layoutWidth = 320.0,
      layoutHeight = 160.0\<rparr>"

text \<open>
  \<^verbatim>\<open>makePathForWord\<close>: the key indices of the word's characters (a character is
  looked up by its code as it stands, unmapped characters are dropped, repeated letters
  are kept), their centres, and \<open>pointsPerSegment\<close> points on every straight segment
  followed by the last centre. Timestamps advance by 10 per point.
\<close>

definition word_keys :: "KeyboardLayout \<Rightarrow> string \<Rightarrow> int list" where
  "word_keys layout w =
     filter (\<lambda>idx. idx \<ge> 0) (map (\<lambda>c. findKeyByCodePoint layout (of_char c)) w)"

definition word_centers :: "KeyboardLayout \<Rightarrow> string \<Rightarrow> (real \<times> real) list" where
  "word_centers layout w =
     map (\<lambda>idx. (centerX (keys layout ! nat idx), centerY (keys layout ! nat idx)))
       (word_keys layout w)"

definition segment_points ::
  "nat \<Rightarrow> real \<times> real \<Rightarrow> real \<times> real \<Rightarrow> int \<Rightarrow> GesturePoint list" where
  "segment_points pointsPerSegment c0 c1 ts =
     map (\<lambda>j. let t = real j / real pointsPerSegment
               in \<lparr>gp_x = fst c0 + (fst c1 - fst c0) * t,
                   gp_y = snd c0 + (snd c1 - snd c0) * t,
                   gp_timestamp = ts + 10 * int j\<rparr>)
       [0 ..< pointsPerSegment]"

fun segments_loop :: "nat \<Rightarrow> (real \<times> real) list \<Rightarrow> int \<Rightarrow> GesturePoint list" where
  "segments_loop pointsPerSegment (c0 # c1 # cs) ts =
     segment_points pointsPerSegment c0 c1 ts
       @ segments_loop pointsPerSegment (c1 # cs) (ts + 10 * int pointsPerSegment)"
| "segments_loop pointsPerSegment [c] ts = [\<lparr>gp_x = fst c, gp_y = snd c, gp_timestamp = ts\<rparr>]"
| "segments_loop pointsPerSegment [] ts = []"

definition makePathForWord :: "KeyboardLayout \<Rightarrow> string \<Rightarrow> nat \<Rightarrow> GesturePoint list" where
  "makePathForWord layout w pointsPerSegment =
     (if w = [] then []
      else
        let centers = word_centers layout w
        in if centers = [] then [] else segments_loop pointsPerSegment centers 0)"

section \<open>Concrete inputs\<close>

text \<open>
  A dictionary buffer with a valid header that announces two entries, the entry
  \<open>("a", frequency 5)\<close>, and a second entry cut off after its first letter.
\<close>

definition truncated_dict :: "8 word list" where
  "truncated_dict =
     [0x44, 0x49, 0x4C, 0x47, 1, 0, 0, 0, 2, 0, 0, 0, 0, 0, 0, 0,
      0, 0, 0, 0, 0, 0, 0, 0, 0, 0, 0, 0, 0, 0, 0, 0,
      1, 0x61, 5, 0, 0, 0, 0,
      3, 0x62]"

section \<open>Invariants used by the proofs\<close>

text \<open>No entry of the store is more frequent than the recorded maximum.\<close>

definition dict_inv :: "DictionaryLoader \<Rightarrow> bool" where
  "dict_inv d \<longleftrightarrow> (\<forall>en \<in> set (entries d). frequency en \<le> maxFrequency d)"

text \<open>
  A configuration that differs from the default in the two path-processor parameters,
  and three collinear raw points 3 and 7 units apart.
\<close>

definition far_config :: ScoringConfig where
  "far_config = default_config\<lparr>resampleCount := 32, minPointDistance := 50.0\<rparr>"

definition three_points :: "GesturePoint list" where
  "three_points =
     [\<lparr>gp_x = 0, gp_y = 0, gp_timestamp = 0\<rparr>,
      \<lparr>gp_x = 3, gp_y = 0, gp_timestamp = 10\<rparr>,
      \<lparr>gp_x = 10, gp_y = 0, gp_timestamp = 20\<rparr>]"

section \<open>Distinct consecutive keys of a word\<close>

text \<open>
  The keys a word visits, as \<^verbatim>\<open>generate\<close> sees them: the key index of every
  character that has a key, with runs of the same key collapsed to one.
\<close>

definition mapped_keys :: "KeyboardLayout \<Rightarrow> string \<Rightarrow> int list" where
  "mapped_keys layout w =
     filter (\<lambda>idx. idx \<ge> 0) (map (\<lambda>c. findKeyByCodePoint layout (char_cp c)) w)"

definition distinct_keys :: "KeyboardLayout \<Rightarrow> string \<Rightarrow> int list" where
  "distinct_keys layout w = remdups_adj (mapped_keys layout w)"

text \<open>A generator that was given the test layout and has cached nothing yet.\<close>

definition qwerty_generator :: IdealPathGenerator where
  "qwerty_generator = setLayout makeQwertyLayout new_generator"

text \<open>Two candidates for different words with the same confidence.\<close>

definition cand_first :: GestureCandidate where
  "cand_first =
     \<lparr>cand_word = ''go'', confidence = 0.5, sourceFlags = SOURCE_MAIN_DICT,
      dtwScore = 0.25, frequencyScore = 1.0\<rparr>"

definition cand_second :: GestureCandidate where
  "cand_second =
     \<lparr>cand_word = ''do'', confidence = 0.5, sourceFlags = SOURCE_MAIN_DICT,
      dtwScore = 0.25, frequencyScore = 1.0\<rparr>"

text \<open>
  Seventeen words that start with g, end with o and touch no other key of the test
  layout: doubled letters are one key, and the hyphen has none.
\<close>

definition tie_words :: "string list" where
  "tie_words =
     [''go'', ''ggo'', ''goo'', ''g-o'', ''gggo'', ''ggoo'', ''gooo'', ''gg-o'', ''g-oo'',
      ''ggggo'', ''gggoo'', ''ggooo'', ''goooo'', ''ggg-o'', ''gg-oo'', ''g-ooo'', ''g--o'']"

text \<open>Seventeen candidates with one confidence, one for each of these words.\<close>

definition tied_candidates :: "GestureCandidate list" where
  "tied_candidates =
     map (\<lambda>w. \<lparr>cand_word = w, confidence = 0.5, sourceFlags = SOURCE_MAIN_DICT,
                 dtwScore = 0.25, frequencyScore = 1.0\<rparr>) tie_words"

text \<open>
  A dictionary that holds exactly these words, each with frequency 1000 and no flags,
  in the binary format (header with language tag \<open>en\<close> and 17 entries), and the
  engine initialised with it on the test layout.
\<close>

definition tie_entry_bytes :: "string \<Rightarrow> 8 word list" where
  "tie_entry_bytes w = of_nat (length w) # map (\<lambda>c. of_nat (of_char c)) w @ [232, 3, 0, 0, 0]"

definition tie_dict :: "8 word list" where
  "tie_dict =
     [68, 73, 76, 71, 1, 0, 0, 0, 17, 0, 0, 0, 2, 0, 101, 110,
      0, 0, 0, 0, 0, 0, 0, 0, 0, 0, 0, 0, 0, 0, 0, 0]
     @ concat (map tie_entry_bytes tie_words)"

definition tie_entries :: "DictionaryEntry list" where
  "tie_entries = map (\<lambda>w. \<lparr>entry_word = w, frequency = 1000, entry_flags = 0\<rparr>) tie_words"

text \<open>
  The dictionary of the engine tests (\<^verbatim>\<open>buildTestDict\<close> in
  tests/GestureEngineTest.cpp): the header with language tag \<open>en\<close> and nine entries,
  then one line per entry: the, and, hello, world, help, hero, go, do, a.
\<close>

definition buildTestDict :: "8 word list" where
  "buildTestDict =
     [68, 73, 76, 71, 1, 0, 0, 0, 9, 0, 0, 0, 2, 0, 101, 110,
      0, 0, 0, 0, 0, 0, 0, 0, 0, 0, 0, 0, 0, 0, 0, 0,
      3, 116, 104, 101, 64, 66, 15, 0, 0,
      3, 97, 110, 100, 0, 53, 12, 0, 0,
      5, 104, 101, 108, 108, 111, 80, 195, 0, 0, 0,
      5, 119, 111, 114, 108, 100, 64, 156, 0, 0, 0,
      4, 104, 101, 108, 112, 48, 117, 0, 0, 0,
      4, 104, 101, 114, 111, 32, 78, 0, 0, 0,
      2, 103, 111, 64, 13, 3, 0, 0,
      2, 100, 111, 32, 191, 2, 0, 0,
      1, 97, 160, 187, 13, 0, 0]"

text \<open>The engine of the test fixture, and the two-point raw path from g to o.\<close>

definition test_engine :: GestureEngine where
  "test_engine = snd (initWithData makeQwertyLayout buildTestDict new_engine)"

definition tie_engine :: GestureEngine where
  "tie_engine = snd (initWithData makeQwertyLayout tie_dict new_engine)"

definition go_path :: RawGesturePath where
  "go_path =
     \<lparr>raw_points = [\<lparr>gp_x = 160, gp_y = 80, gp_timestamp = 0\<rparr>,
                    \<lparr>gp_x = 272, gp_y = 26, gp_timestamp = 10\<rparr>]\<rparr>"

section \<open>Engine states\<close>

text \<open>
  The states an engine can be in: that of a newly constructed engine, and whatever the
  public operations make of such a state, with any arguments.
\<close>

inductive engine_state :: "GestureEngine \<Rightarrow> bool" where
  es_new: "engine_state new_engine"
| es_init: "engine_state e \<Longrightarrow> engine_state (snd (init fs layout dictPath e))"
| es_initWithData: "engine_state e \<Longrightarrow> engine_state (snd (initWithData layout dictData e))"
| es_recognize: "engine_state e \<Longrightarrow> engine_state (snd (recognize srt e rawPath maxCandidates))"
| es_updateLayout: "engine_state e \<Longrightarrow> engine_state (snd (updateLayout layout e))"
| es_configure: "engine_state e \<Longrightarrow> engine_state (configure config e)"
| es_shutdown: "engine_state e \<Longrightarrow> engine_state (shutdown e)"

text \<open>What the specification asks of every candidate.\<close>

definition candidate_in_range :: "GestureCandidate \<Rightarrow> bool" where
  "candidate_in_range c \<longleftrightarrow>
     0 \<le> confidence c \<and> confidence c \<le> 1 \<and> 0 \<le> frequencyScore c \<and> frequencyScore c \<le> 1"

text \<open>The finite DTW distances among scored entries.\<close>

definition finite_dtws :: "(DictionaryEntry \<times> real) list \<Rightarrow> real set" where
  "finite_dtws scored = {d \<in> snd ` set scored. d < FLT_MAX}"

text \<open>Scored lists with one and with two entries.\<close>

definition one_scored :: "(DictionaryEntry \<times> real) list" where
  "one_scored = [(\<lparr>entry_word = ''hero'', frequency = 20000, entry_flags = 0\<rparr>, 0.25)]"

definition two_scored :: "(DictionaryEntry \<times> real) list" where
  "two_scored =
     [(\<lparr>entry_word = ''hello'', frequency = 50000, entry_flags = 0\<rparr>, 0.5),
      (\<lparr>entry_word = ''hero'', frequency = 20000, entry_flags = 0\<rparr>, 0.25)]"

section \<open>The DTW recurrence as a full matrix\<close>

text \<open>
  The recurrence the rolling rows implement, written over the whole matrix for a cost
  function \<open>c\<close>, band width \<open>W\<close> and size \<open>N\<close>: a cell outside the band holds
  \<^const>\<open>FLT_MAX\<close>; the corner holds its cost; the first row and the first column
  accumulate along the border; every other cell adds its cost to the smallest of its
  three predecessors, unless none of them is below \<^const>\<open>FLT_MAX\<close>.
\<close>

definition in_band :: "int \<Rightarrow> nat \<Rightarrow> nat \<Rightarrow> nat \<Rightarrow> bool" where
  "in_band W N i j \<longleftrightarrow> i < N \<and> j < N \<and> int i - W \<le> int j \<and> int j \<le> int i + W"

fun dtw_matrix :: "(nat \<Rightarrow> nat \<Rightarrow> real) \<Rightarrow> int \<Rightarrow> nat \<Rightarrow> nat \<Rightarrow> nat \<Rightarrow> real" where
  "dtw_matrix c W N 0 0 = (if in_band W N 0 0 then c 0 0 else FLT_MAX)"
| "dtw_matrix c W N 0 (Suc j) =
     (if in_band W N 0 (Suc j) \<and> dtw_matrix c W N 0 j < FLT_MAX
      then dtw_matrix c W N 0 j + c 0 (Suc j) else FLT_MAX)"
| "dtw_matrix c W N (Suc i) 0 =
     (if in_band W N (Suc i) 0 \<and> dtw_matrix c W N i 0 < FLT_MAX
      then c (Suc i) 0 + dtw_matrix c W N i 0 else FLT_MAX)"
| "dtw_matrix c W N (Suc i) (Suc j) =
     (let best = min (min (min FLT_MAX (dtw_matrix c W N i (Suc j)))
                       (dtw_matrix c W N (Suc i) j))
                  (dtw_matrix c W N i j)
      in if in_band W N (Suc i) (Suc j) \<and> best < FLT_MAX
         then c (Suc i) (Suc j) + best else FLT_MAX)"

text \<open>The cost function of two point lists, and a path of 64 points on a line.\<close>

definition path_cost :: "NormalizedPoint list \<Rightarrow> NormalizedPoint list \<Rightarrow> nat \<Rightarrow> nat \<Rightarrow> real" where
  "path_cost g ideal i j = pointDistance (g ! i) (ideal ! j)"

definition makeLinePath :: "real \<Rightarrow> real \<Rightarrow> real \<Rightarrow> real \<Rightarrow> GesturePath" where
  "makeLinePath x0 y0 x1 y1 =
     \<lparr>path_points =
        map (\<lambda>i. let t = real i / real (RESAMPLE_COUNT - 1)
                  in \<lparr>np_x = x0 + (x1 - x0) * t, np_y = y0 + (y1 - y0) * t, np_t = t\<rparr>)
          [0 ..< RESAMPLE_COUNT],
      aspectRatio = 1.0,
      totalArcLength = sqrt ((x1 - x0) * (x1 - x0) + (y1 - y0) * (y1 - y0)),
      startKeyIndex = -1,
      endKeyIndex = -1\<rparr>"

text \<open>A row filled from column \<open>b\<close> up to (not including) column \<open>k\<close>.\<close>

definition partial_row :: "(nat \<Rightarrow> real) \<Rightarrow> nat \<Rightarrow> nat \<Rightarrow> nat \<Rightarrow> real list" where
  "partial_row v N b k = map (\<lambda>j. if b \<le> j \<and> j < k then v j else FLT_MAX) [0 ..< N]"

section \<open>Nearest key by squared distance\<close>

text \<open>
  The loop of \<^const>\<open>findNearestKey_loop\<close> with both distances squared; it picks the
  same key (\<open>findNearestKey_sq\<close> below) and can be evaluated on rational numbers.
\<close>

fun findNearestKey_sq_loop ::
  "KeyDescriptor list \<Rightarrow> nat \<Rightarrow> real \<Rightarrow> real \<Rightarrow> int \<Rightarrow> real \<Rightarrow> int" where
  "findNearestKey_sq_loop [] i x y bestIndex bestSq = bestIndex"
| "findNearestKey_sq_loop (key # ks) i x y bestIndex bestSq =
     (if \<not> isCharacterKey key then findNearestKey_sq_loop ks (Suc i) x y bestIndex bestSq
      else
        let dx = centerX key - x;
            dy = centerY key - y;
            sq = dx * dx + dy * dy
        in if sq < bestSq
           then findNearestKey_sq_loop ks (Suc i) x y (int i) sq
           else findNearestKey_sq_loop ks (Suc i) x y bestIndex bestSq)"

text \<open>The nearest keys along raw points, as the word-length estimator reads them.\<close>

definition nearest_keys :: "KeyboardLayout \<Rightarrow> GesturePoint list \<Rightarrow> int list" where
  "nearest_keys layout pts =
     filter (\<lambda>k. k \<ge> 0) (map (\<lambda>pt. findNearestKey layout (gp_x pt) (gp_y pt)) pts)"

text \<open>An engine that holds the test layout, and the clean path of a word on it.\<close>

definition qwerty_engine :: GestureEngine where
  "qwerty_engine = new_engine\<lparr>eng_layout := makeQwertyLayout\<rparr>"

definition clean_path :: "string \<Rightarrow> RawGesturePath" where
  "clean_path w = \<lparr>raw_points = makePathForWord makeQwertyLayout w 8\<rparr>"

text \<open>A key that is the nearest key to its own centre.\<close>

definition centre_snaps :: "KeyboardLayout \<Rightarrow> int \<Rightarrow> bool" where
  "centre_snaps layout idx \<longleftrightarrow>
     findNearestKey layout (centerX (keys layout ! nat idx)) (centerY (keys layout ! nat idx)) = idx"

text \<open>The entry of the test dictionary for the word \<open>go\<close>.\<close>

definition go_entry :: DictionaryEntry where
  "go_entry = \<lparr>entry_word = ''go'', frequency = 200000, entry_flags = 0\<rparr>"

section \<open>Square roots against numerals\<close>

lemma le_sqrt_iff_sq: "0 \<le> m \<Longrightarrow> (m \<le> sqrt x) = (m * m \<le> x)"
proof -
  assume m: "0 \<le> m"
  have "sqrt (m * m) = m" using m by (simp add: real_sqrt_mult)
  then have "(m \<le> sqrt x) = (sqrt (m * m) \<le> sqrt x)" by simp
  also have "\<dots> = (m * m \<le> x)" by (rule real_sqrt_le_iff)
  finally show ?thesis .
qed

lemma sqrt_less_iff_sq: "0 \<le> m \<Longrightarrow> (sqrt x < m) = (x < m * m)"
  using le_sqrt_iff_sq[of m x] by auto


section \<open>Dictionary store: what a load leaves behind\<close>

lemma parseEntries_loaded: "loaded (snd (parseEntries n buf pos d)) = loaded d"
  by (induction n arbitrary: pos d) (simp_all add: Let_def setError_def)

lemma snd_parse_case:
  "snd (case r of (False, d2) \<Rightarrow> (False, d2) | (True, d2) \<Rightarrow> (True, d2\<lparr>loaded := True\<rparr>))
     = (if fst r then (snd r)\<lparr>loaded := True\<rparr> else snd r)"
  by (cases r; cases "fst r"; simp)

lemma fst_parse_case:
  "fst (case r of (False, d2) \<Rightarrow> (False, d2) | (True, d2) \<Rightarrow> (True, d2\<lparr>loaded := True\<rparr>))
     = fst r"
  by (cases r; cases "fst r"; simp)

lemma parseFromBuffer_loaded:
  "\<not> loaded d \<Longrightarrow> loaded (snd (parseFromBuffer buf d)) = fst (parseFromBuffer buf d)"
  unfolding parseFromBuffer_def Let_def
  by (simp add: snd_parse_case fst_parse_case parseEntries_loaded setError_def clearError_def)

lemma loadFromMemory_loaded:
  "loaded (snd (loadFromMemory buf d)) = fst (loadFromMemory buf d)"
  unfolding loadFromMemory_def
  by (rule parseFromBuffer_loaded) (simp add: unload_def clearError_def)

lemma failed_load_queries_empty:
  assumes "\<not> fst (loadFromMemory buf d)"
  shows "getAllEntries (snd (loadFromMemory buf d)) = []"
    and "getEntriesStartingWith (snd (loadFromMemory buf d)) c = []"
    and "getEntriesWithStartEnd (snd (loadFromMemory buf d)) s e = []"
    and "lookup (snd (loadFromMemory buf d)) w = None"
  using assms loadFromMemory_loaded[of buf d]
  by (simp_all add: getAllEntries_def getEntriesStartingWith_def getEntriesWithStartEnd_def lookup_def)


lemma dict_inv_setError [simp]: "dict_inv (setError c d) = dict_inv d"
  by (simp add: dict_inv_def setError_def)

lemma dict_inv_loaded [simp]: "dict_inv (d\<lparr>loaded := b\<rparr>) = dict_inv d"
  by (simp add: dict_inv_def)

lemma dict_inv_header [simp]: "dict_inv (d\<lparr>dict_header := h\<rparr>) = dict_inv d"
  by (simp add: dict_inv_def)

lemma dict_inv_push:
  "dict_inv d \<Longrightarrow>
   dict_inv ((if frequency en > maxFrequency d then d\<lparr>maxFrequency := frequency en\<rparr> else d)
              \<lparr>entries := entries (if frequency en > maxFrequency d
                                   then d\<lparr>maxFrequency := frequency en\<rparr> else d) @ [en]\<rparr>)"
  by (auto simp: dict_inv_def)

lemma parseEntries_inv: "dict_inv d \<Longrightarrow> dict_inv (snd (parseEntries n buf pos d))"
proof (induction n arbitrary: pos d)
  case 0
  then show ?case by simp
next
  case (Suc n)
  consider (eof) "pos + 1 > length buf"
    | (long) "\<not> pos + 1 > length buf" "unat (buf ! pos) > MAX_WORD_LENGTH"
    | (cut) "\<not> pos + 1 > length buf" "\<not> unat (buf ! pos) > MAX_WORD_LENGTH"
        "pos + 1 + unat (buf ! pos) + 4 + 1 > length buf"
    | (ok) "\<not> pos + 1 > length buf" "\<not> unat (buf ! pos) > MAX_WORD_LENGTH"
        "\<not> pos + 1 + unat (buf ! pos) + 4 + 1 > length buf"
    by blast
  then show ?case
  proof cases
    case eof
    then show ?thesis using Suc.prems by simp
  next
    case long
    then show ?thesis using Suc.prems by (simp add: Let_def)
  next
    case cut
    then show ?thesis using Suc.prems by (simp add: Let_def)
  next
    case ok
    show ?thesis
      apply (simp only: parseEntries.simps Let_def ok if_False)
      apply (rule Suc.IH)
      apply (rule dict_inv_push[OF Suc.prems])
      done
  qed
qed

lemma parseFromBuffer_inv: "dict_inv (snd (parseFromBuffer buf d))"
proof -
  define d0 where "d0 = (clearError d)\<lparr>entries := [], dict_header := empty_header, maxFrequency := 0\<rparr>"
  have i0: "dict_inv d0" by (simp add: d0_def dict_inv_def)
  have pe: "\<And>h n. dict_inv (snd (parseEntries n buf DICT_HEADER_SIZE (d0\<lparr>dict_header := h\<rparr>)))"
    by (rule parseEntries_inv) (simp add: i0)
  show ?thesis
    unfolding parseFromBuffer_def Let_def d0_def[symmetric]
    by (simp add: snd_parse_case i0 pe)
qed

lemma loadFromMemory_inv: "dict_inv (snd (loadFromMemory buf d))"
  by (simp add: loadFromMemory_def parseFromBuffer_inv)

lemma unload_inv: "dict_inv (unload d)"
  by (simp add: unload_def dict_inv_def clearError_def)

lemma truncated_load:
  "loadFromMemory truncated_dict new_loader =
     (False, \<lparr>entries = [\<lparr>entry_word = ''a'', frequency = 5, entry_flags = 0\<rparr>],
       dict_header = \<lparr>hdr_magic = DICT_MAGIC, hdr_version = 1, hdr_flags = 0,
          entryCount = 2, hdr_languageTag = []\<rparr>,
       maxFrequency = 5, dict_lastError = DICT_CORRUPT, loaded = False\<rparr>)"
  by code_simp

text \<open>
  C1 (the code at the failing input). Loading \<^const>\<open>truncated_dict\<close> into a fresh
  loader fails with \<^const>\<open>DICT_CORRUPT\<close> and leaves the loader unloaded, so the
  guarded queries answer as on an unloaded store; but the entry parsed before the
  truncation stays in the store, and \<^const>\<open>getEntryCount\<close> and
  \<^const>\<open>getMaxFrequency\<close>, which do not look at the loaded flag, report it: 1 entry
  and maximum frequency 5, where the header documents 0 for an unloaded store.
\<close>

theorem corrupt_load_keeps_parsed_entries: "\<not> fst (loadFromMemory truncated_dict new_loader)
  \<and> dict_lastError (snd (loadFromMemory truncated_dict new_loader)) = DICT_CORRUPT
  \<and> \<not> isLoaded (snd (loadFromMemory truncated_dict new_loader))
  \<and> getEntryCount (snd (loadFromMemory truncated_dict new_loader)) = 1
  \<and> getMaxFrequency (snd (loadFromMemory truncated_dict new_loader)) = 5
  \<and> getAllEntries (snd (loadFromMemory truncated_dict new_loader)) = []"
  by (simp add: truncated_load isLoaded_def getEntryCount_def getMaxFrequency_def getAllEntries_def)

section \<open>Band width under the default configuration\<close>

text \<open>
  C3 (the code at the failing input). A default-constructed scorer holds the default
  configuration, whose ratio is 0.10; on 64-point paths the band width the scorer
  computes is \<open>ceil (0.10 * 64) = ceil 6.4 = 7\<close>, not the 6 of the claim. The
  header declares \<^verbatim>\<open>DTW_BANDWIDTH = 6\<close> as this very width and documents that
  \<^verbatim>\<open>computeDTWDistance\<close> uses it; the scorer never reads the constant.
\<close>

theorem bandWidth_default:
  "bandWidth \<lparr>scorer_config = default_config\<rparr> RESAMPLE_COUNT
     = \<lceil>DTW_BANDWIDTH_RATIO * 64\<rceil>
   \<and> bandWidth \<lparr>scorer_config = default_config\<rparr> RESAMPLE_COUNT = 7
   \<and> DTW_BANDWIDTH = 6
   \<and> bandWidth \<lparr>scorer_config = default_config\<rparr> RESAMPLE_COUNT \<noteq> DTW_BANDWIDTH"
  by (simp add: bandWidth_def static_cast_int_def default_config_def RESAMPLE_COUNT_def
      DTW_BANDWIDTH_RATIO_def DTW_BANDWIDTH_def)

section \<open>Configuration\<close>

lemma configure_pathProcessor: "pathProcessor (configure c e) = pathProcessor e"
  by (simp add: configure_def)

lemma configure_sets_config:
  "eng_config (configure c e) = c \<and> scorer_config (scorer (configure c e)) = c"
  by (simp add: configure_def scorer_configure_def)

text \<open>
  C2 (the code at the failing input). \<^const>\<open>configure\<close> stores the configuration
  and hands it to the scorer, but never calls \<^const>\<open>setMinPointDistance\<close> or
  \<^const>\<open>setResampleCount\<close>: after \<open>configure far_config\<close> on a new engine the
  path processor still deduplicates with threshold 2 and resamples to 64 points. On
  \<^const>\<open>three_points\<close> it keeps the middle point, which a processor with the
  configured threshold 50 drops.
\<close>

theorem configure_skips_path_processor:
  "pp_minPointDistance (pathProcessor (configure far_config new_engine)) = 2
   \<and> pp_resampleCount (pathProcessor (configure far_config new_engine)) = 64
   \<and> minPointDistance (eng_config (configure far_config new_engine)) = 50
   \<and> resampleCount (eng_config (configure far_config new_engine)) = 32
   \<and> deduplicate (pathProcessor (configure far_config new_engine)) three_points = three_points
   \<and> deduplicate (setMinPointDistance (minPointDistance far_config) new_pathProcessor) three_points
       = [three_points ! 0, three_points ! 2]"
  by (simp add: configure_def new_engine_def new_pathProcessor_def far_config_def
      default_config_def MIN_POINT_DISTANCE_DP_def RESAMPLE_COUNT_def scorer_configure_def
      deduplicate_def three_points_def setMinPointDistance_def le_sqrt_iff_sq)

section \<open>Ideal paths of words with fewer than two keys\<close>






lemma generate_keyPoints_length:
  "length (generate_keyPoints layout w prev ci acc)
     = length acc + length (remdups_adj (prev # mapped_keys layout w)) - 1"
proof (induction w arbitrary: prev ci acc)
  case Nil
  then show ?case by (simp add: mapped_keys_def)
next
  case (Cons ch w)
  have mk: "mapped_keys layout (ch # w) =
      (if findKeyByCodePoint layout (char_cp ch) \<ge> 0
       then findKeyByCodePoint layout (char_cp ch) # mapped_keys layout w
       else mapped_keys layout w)"
    by (simp add: mapped_keys_def)
  show ?case
    by (simp add: Let_def Cons.IH mk)
qed

lemma mapped_keys_nonneg: "k \<in> set (mapped_keys layout w) \<Longrightarrow> k \<ge> 0"
  by (simp add: mapped_keys_def)

lemma generate_keyPoints_count:
  "length (generate_keyPoints layout w (-1) 0 []) = length (distinct_keys layout w)"
proof -
  have "remdups_adj ((-1) # mapped_keys layout w) = (-1) # remdups_adj (mapped_keys layout w)"
  proof (cases "mapped_keys layout w")
    case Nil
    then show ?thesis by simp
  next
    case (Cons k ks)
    then have "k \<ge> 0" using mapped_keys_nonneg[of k layout w] by simp
    then show ?thesis using Cons by simp
  qed
  then show ?thesis by (simp add: generate_keyPoints_length distinct_keys_def)
qed

lemma getIdealPath_distinct:
  "distinct (map fst (cache gen)) \<Longrightarrow> distinct (map fst (cache (snd (getIdealPath w gen))))"
  by (simp add: getIdealPath_def Let_def distinct_update split: option.splits)


text \<open>The word \<open>LL\<close> on the test layout: one key, the letter l.\<close>

lemma qg_set: "layoutSet qwerty_generator \<and> cache qwerty_generator = []
   \<and> gen_layout qwerty_generator = makeQwertyLayout"
  by (simp add: qwerty_generator_def setLayout_def)




section \<open>Sorts that meet the contract\<close>

lemma swo_asym: "strict_weak_order cmp \<Longrightarrow> cmp a b \<Longrightarrow> \<not> cmp b a"
  unfolding strict_weak_order_def by blast

lemma swo_neg_trans:
  assumes "strict_weak_order cmp" "\<not> cmp c b" "\<not> cmp b a"
  shows "\<not> cmp c a"
proof
  assume ca: "cmp c a"
  from assms(1) have tr: "\<And>x y z. cmp x y \<Longrightarrow> cmp y z \<Longrightarrow> cmp x z"
    and eq: "\<And>x y z. \<not> cmp x y \<Longrightarrow> \<not> cmp y x \<Longrightarrow> \<not> cmp y z \<Longrightarrow> \<not> cmp z y \<Longrightarrow> \<not> cmp x z"
    unfolding strict_weak_order_def by blast+
  have nbc: "\<not> cmp b c" using tr[of b c a] ca assms(3) by blast
  have nab: "\<not> cmp a b" using tr[of c a b] ca assms(2) by blast
  from eq[OF assms(2) nbc assms(3) nab] ca show False by blast
qed

lemma mset_insort_by: "mset (insort_by cmp x ys) = add_mset x (mset ys)"
  by (induction ys) auto

lemma set_insort_by: "set (insort_by cmp x ys) = insert x (set ys)"
  by (induction ys) auto

lemma sorted_insort_by:
  assumes swo: "strict_weak_order cmp"
  shows "sorted_wrt (\<lambda>a b. \<not> cmp b a) ys \<Longrightarrow> sorted_wrt (\<lambda>a b. \<not> cmp b a) (insort_by cmp x ys)"
proof (induction ys)
  case Nil
  then show ?case by simp
next
  case (Cons y ys)
  show ?case
  proof (cases "cmp y x")
    case True
    then have "\<not> cmp x y" using swo_asym[OF swo] by blast
    with True Cons show ?thesis by (auto simp: set_insort_by)
  next
    case False
    have "\<forall>z \<in> set ys. \<not> cmp z x"
    proof
      fix z assume "z \<in> set ys"
      then have "\<not> cmp z y" using Cons.prems by simp
      from swo_neg_trans[OF swo this False] show "\<not> cmp z x" .
    qed
    with False Cons.prems show ?thesis by simp
  qed
qed

lemma insertion_sort_Cons:
  "insertion_sort cmp (x # xs) = insort_by cmp x (insertion_sort cmp xs)"
  by (simp add: insertion_sort_def)

lemma mset_insertion_sort: "mset (insertion_sort cmp xs) = mset xs"
  by (induction xs) (simp_all add: insertion_sort_Cons mset_insort_by, simp add: insertion_sort_def)

lemma sorted_insertion_sort:
  "strict_weak_order cmp \<Longrightarrow> sorted_wrt (\<lambda>a b. \<not> cmp b a) (insertion_sort cmp xs)"
  by (induction xs) (simp add: insertion_sort_def, simp add: insertion_sort_Cons sorted_insort_by)

lemma insertion_sort_contract: "std_sort_contract insertion_sort"
  by (simp add: std_sort_contract_def mset_insertion_sort sorted_insertion_sort)

section \<open>The sort the program runs permutes its range\<close>

text \<open>
  Every position the functions write to lies in the vector, so each of them leaves a
  permutation of it. A value held outside the vector (the \<open>val\<close> of an insertion or
  of a heap adjustment) counts as being in the hole it will fill.
\<close>

lemma length_iter_swap: "length (iter_swap a b xs) = length xs"
  by (simp add: iter_swap_def)

lemma mset_iter_swap:
  "a < length xs \<Longrightarrow> b < length xs \<Longrightarrow> mset (iter_swap a b xs) = mset xs"
  by (simp add: iter_swap_def mset_swap)

lemma mset_update_hole:
  assumes "i < length xs" "j < length xs"
  shows "mset (xs[i := xs ! j, j := v]) = mset (xs[i := v])"
proof (cases "i = j")
  case True
  then show ?thesis by simp
next
  case False
  let ?ys = "xs[i := v]"
  have e: "?ys[i := ?ys ! j, j := ?ys ! i] = xs[i := xs ! j, j := v]"
    using False assms by simp
  have "mset (?ys[i := ?ys ! j, j := ?ys ! i]) = mset ?ys"
    using assms mset_swap[of j ?ys i] by simp
  then show ?thesis unfolding e .
qed

lemma length_move_median: "length (move_median_to_first cmp r a b c xs) = length xs"
  by (simp add: move_median_to_first_def length_iter_swap)

lemma mset_move_median:
  "r < length xs \<Longrightarrow> a < length xs \<Longrightarrow> b < length xs \<Longrightarrow> c < length xs
   \<Longrightarrow> mset (move_median_to_first cmp r a b c xs) = mset xs"
  by (simp add: move_median_to_first_def mset_iter_swap)

lemma scan_up_ge: "first \<le> scan_up cmp xs pivot first"
  by (induction cmp xs pivot first rule: scan_up.induct) (subst scan_up.simps, auto)

lemma scan_up_le: "first \<le> length xs \<Longrightarrow> scan_up cmp xs pivot first \<le> length xs"
  by (induction cmp xs pivot first rule: scan_up.induct) (subst scan_up.simps, auto)

lemma scan_down_le: "scan_down cmp xs pivot lst \<le> lst"
  by (induction cmp xs pivot lst rule: scan_down.induct) (subst scan_down.simps, auto)

lemma unguarded_partition_perm:
  "lst \<le> length xs \<Longrightarrow> first \<le> length xs \<Longrightarrow>
     length (snd (unguarded_partition cmp pivot first lst xs)) = length xs
     \<and> mset (snd (unguarded_partition cmp pivot first lst xs)) = mset xs
     \<and> fst (unguarded_partition cmp pivot first lst xs) \<le> length xs"
proof (induction cmp pivot first lst xs rule: unguarded_partition.induct)
  case (1 cmp pivot first lst xs)
  let ?f = "scan_up cmp xs pivot first"
  let ?l = "scan_down cmp xs pivot (lst - 1)"
  show ?case
  proof (cases "?f < ?l")
    case False
    then show ?thesis
      using scan_up_le[OF "1.prems"(2), of cmp pivot]
      by (subst (1 2 3) unguarded_partition.simps) (simp add: Let_def)
  next
    case True
    have l: "?l \<le> lst - 1" by (rule scan_down_le)
    then have ll: "?l < length xs" using True "1.prems" by linarith
    then have fl: "?f < length xs" using True by linarith
    have IH: "length (snd (unguarded_partition cmp pivot (Suc ?f) ?l (iter_swap ?f ?l xs))) = length (iter_swap ?f ?l xs)
     \<and> mset (snd (unguarded_partition cmp pivot (Suc ?f) ?l (iter_swap ?f ?l xs))) = mset (iter_swap ?f ?l xs)
     \<and> fst (unguarded_partition cmp pivot (Suc ?f) ?l (iter_swap ?f ?l xs)) \<le> length (iter_swap ?f ?l xs)"
      using "1.IH"[OF refl refl] True ll fl by (simp add: length_iter_swap)
    show ?thesis
      using True IH ll fl
      by (subst (1 2 3) unguarded_partition.simps) (simp add: Let_def length_iter_swap mset_iter_swap)
  qed
qed

lemma unguarded_partition_pivot_perm:
  assumes "lst \<le> length xs" "lst - first > S_threshold"
  shows "length (snd (unguarded_partition_pivot cmp first lst xs)) = length xs"
    and "mset (snd (unguarded_partition_pivot cmp first lst xs)) = mset xs"
    and "fst (unguarded_partition_pivot cmp first lst xs) \<le> length xs"
proof -
  let ?ys = "move_median_to_first cmp first (first + 1) (first + (lst - first) div 2) (lst - 1) xs"
  have b: "first < length xs" "first + 1 < length xs" "first + (lst - first) div 2 < length xs"
    "lst - 1 < length xs"
    using assms by (simp_all add: S_threshold_def)
  have l: "length ?ys = length xs" by (rule length_move_median)
  have m: "mset ?ys = mset xs" using b by (simp add: mset_move_median)
  have p: "length (snd (unguarded_partition cmp first (first + 1) lst ?ys)) = length ?ys
     \<and> mset (snd (unguarded_partition cmp first (first + 1) lst ?ys)) = mset ?ys
     \<and> fst (unguarded_partition cmp first (first + 1) lst ?ys) \<le> length ?ys"
    using assms b by (intro unguarded_partition_perm) (simp_all add: length_move_median)
  show "length (snd (unguarded_partition_pivot cmp first lst xs)) = length xs"
    and "mset (snd (unguarded_partition_pivot cmp first lst xs)) = mset xs"
    and "fst (unguarded_partition_pivot cmp first lst xs) \<le> length xs"
    using p l m by (simp_all add: unguarded_partition_pivot_def Let_def)
qed

subsection \<open>Heap sort\<close>

lemma push_heap_perm:
  "first + holeIndex < length xs \<Longrightarrow>
     length (push_heap cmp first holeIndex topIndex v xs) = length xs
     \<and> mset (push_heap cmp first holeIndex topIndex v xs) = mset (xs[first + holeIndex := v])"
proof (induction cmp first holeIndex topIndex v xs rule: push_heap.induct)
  case (1 cmp first holeIndex topIndex v xs)
  let ?p = "(holeIndex - 1) div 2"
  show ?case
  proof (cases "holeIndex > topIndex \<and> cmp (xs ! (first + ?p)) v")
    case False
    then show ?thesis by (subst (1 2) push_heap.simps) (auto simp: Let_def)
  next
    case True
    then have pl: "?p < holeIndex" by auto
    then have pb: "first + ?p < length xs" using "1.prems" by linarith
    let ?ys = "xs[first + holeIndex := xs ! (first + ?p)]"
    have IH: "length (push_heap cmp first ?p topIndex v ?ys) = length ?ys
      \<and> mset (push_heap cmp first ?p topIndex v ?ys) = mset (?ys[first + ?p := v])"
      using "1.IH"[OF refl] True pb by simp
    have "mset (?ys[first + ?p := v]) = mset (xs[first + holeIndex := v])"
      using mset_update_hole[OF "1.prems" pb] by simp
    then show ?thesis
      using True IH by (subst (1 2) push_heap.simps) (simp add: Let_def)
  qed
qed

lemma adjust_heap_loop_perm:
  "holeIndex < len \<Longrightarrow> first + len \<le> length xs \<Longrightarrow>
   (case adjust_heap_loop cmp first len holeIndex holeIndex xs of
      (h, sc, ys) \<Rightarrow> h = sc \<and> h < len \<and> holeIndex \<le> h \<and> length ys = length xs
         \<and> (\<forall>v. mset (ys[first + h := v]) = mset (xs[first + holeIndex := v])))"
proof (induction "len - holeIndex" arbitrary: holeIndex xs rule: less_induct)
  case less
  show ?case
  proof (cases "holeIndex < (len - 1) div 2")
    case False
    then show ?thesis using less.prems by (subst adjust_heap_loop.simps) simp
  next
    case True
    let ?sc = "2 * (holeIndex + 1)"
    let ?sc1 = "if cmp (xs ! (first + ?sc)) (xs ! (first + (?sc - 1))) then ?sc - 1 else ?sc"
    let ?ys = "xs[first + holeIndex := xs ! (first + ?sc1)]"
    have scb: "?sc < len" using True by presburger
    then have sc1b: "?sc1 < len" by auto
    have gt: "holeIndex < ?sc1" by auto
    have IH: "case adjust_heap_loop cmp first len ?sc1 ?sc1 ?ys of
      (h, sc, zs) \<Rightarrow> h = sc \<and> h < len \<and> ?sc1 \<le> h \<and> length zs = length ?ys
         \<and> (\<forall>v. mset (zs[first + h := v]) = mset (?ys[first + ?sc1 := v]))"
      using less.hyps[of ?sc1 ?ys] sc1b gt less.prems by simp
    have hole: "mset (?ys[first + ?sc1 := v]) = mset (xs[first + holeIndex := v])" for v
      using mset_update_hole[of "first + holeIndex" xs "first + ?sc1" v] less.prems sc1b
      by simp
    have step: "adjust_heap_loop cmp first len holeIndex holeIndex xs
        = adjust_heap_loop cmp first len ?sc1 ?sc1 ?ys"
      using True by (subst adjust_heap_loop.simps) (simp add: Let_def)
    show ?thesis
      unfolding step using IH hole gt
      by (auto split: prod.splits)
  qed
qed

lemma adjust_heap_perm_conj:
  assumes "holeIndex < len" "first + len \<le> length xs"
  shows "length (adjust_heap cmp first holeIndex len v xs) = length xs
    \<and> mset (adjust_heap cmp first holeIndex len v xs) = mset (xs[first + holeIndex := v])"
proof -
  obtain h sc ys where r: "adjust_heap_loop cmp first len holeIndex holeIndex xs = (h, sc, ys)"
    by (cases "adjust_heap_loop cmp first len holeIndex holeIndex xs") auto
  have p: "h = sc" "h < len" "length ys = length xs"
    "\<And>v. mset (ys[first + h := v]) = mset (xs[first + holeIndex := v])"
    using adjust_heap_loop_perm[OF assms, of cmp] r by auto
  have hb: "first + h < length ys" using p assms by simp
  show ?thesis
  proof (cases "len mod 2 = 0 \<and> int sc = (int len - 2) div 2")
    case False
    then have e: "adjust_heap cmp first holeIndex len v xs = push_heap cmp first h holeIndex v ys"
      using r by (auto simp: adjust_heap_def)
    show ?thesis
      unfolding e using push_heap_perm[OF hb, of cmp holeIndex v] p by simp
  next
    case True
    let ?c = "2 * (sc + 1) - 1"
    let ?zs = "ys[first + h := ys ! (first + ?c)]"
    have cl: "?c < len" using True p by presburger
    have cb: "first + ?c < length ?zs" using cl assms p by simp
    have e: "adjust_heap cmp first holeIndex len v xs = push_heap cmp first ?c holeIndex v ?zs"
      using r True by (simp add: adjust_heap_def Let_def)
    have "mset (?zs[first + ?c := v]) = mset (ys[first + h := v])"
      using mset_update_hole[of "first + h" ys "first + ?c" v] hb cb by simp
    then show ?thesis
      unfolding e using push_heap_perm[OF cb, of cmp holeIndex v] p by simp
  qed
qed

lemma adjust_heap_perm:
  assumes "holeIndex < len" "first + len \<le> length xs"
  shows "length (adjust_heap cmp first holeIndex len v xs) = length xs"
    and "mset (adjust_heap cmp first holeIndex len v xs) = mset (xs[first + holeIndex := v])"
  using adjust_heap_perm_conj[OF assms] by simp_all

lemma pop_heap_perm:
  assumes "first < lst" "lst \<le> length xs" "result < length xs"
  shows "length (pop_heap cmp first lst result xs) = length xs"
    and "mset (pop_heap cmp first lst result xs) = mset xs"
proof -
  let ?ys = "xs[result := xs ! first]"
  have a: "0 < lst - first" "first + (lst - first) \<le> length ?ys" using assms by simp_all
  have "mset (?ys[first + 0 := xs ! result]) = mset xs"
    using assms mset_swap[of first xs result] by simp
  then show "length (pop_heap cmp first lst result xs) = length xs"
    and "mset (pop_heap cmp first lst result xs) = mset xs"
    unfolding pop_heap_def using adjust_heap_perm[OF a, of cmp "xs ! result"] by simp_all
qed

lemma make_heap_loop_perm:
  "parent < len \<Longrightarrow> first + len \<le> length xs \<Longrightarrow>
     length (make_heap_loop cmp first len parent xs) = length xs
     \<and> mset (make_heap_loop cmp first len parent xs) = mset xs"
proof (induction cmp first len parent xs rule: make_heap_loop.induct)
  case (1 cmp first len parent xs)
  let ?ys = "adjust_heap cmp first parent len (xs ! (first + parent)) xs"
  have a: "length ?ys = length xs" "mset ?ys = mset xs"
    using adjust_heap_perm[OF "1.prems", of cmp "xs ! (first + parent)"] by simp_all
  show ?case
  proof (cases "parent = 0")
    case True
    then show ?thesis using a by (subst (1 2) make_heap_loop.simps) (simp add: Let_def)
  next
    case False
    have "length (make_heap_loop cmp first len (parent - 1) ?ys) = length ?ys
     \<and> mset (make_heap_loop cmp first len (parent - 1) ?ys) = mset ?ys"
      using "1.IH"[OF refl False] "1.prems" a by simp
    then show ?thesis using False a by (subst (1 2) make_heap_loop.simps) (simp add: Let_def)
  qed
qed

lemma make_heap_perm:
  "lst \<le> length xs \<Longrightarrow>
     length (make_heap cmp first lst xs) = length xs \<and> mset (make_heap cmp first lst xs) = mset xs"
  using make_heap_loop_perm[of "(lst - first - 2) div 2" "lst - first" first xs cmp]
  by (auto simp: make_heap_def)

lemma sort_heap_perm:
  "lst \<le> length xs \<Longrightarrow>
     length (sort_heap cmp first lst xs) = length xs \<and> mset (sort_heap cmp first lst xs) = mset xs"
proof (induction cmp first lst xs rule: sort_heap.induct)
  case (1 cmp first lst xs)
  show ?case
  proof (cases "lst - first > 1")
    case False
    then show ?thesis by (subst (1 2) sort_heap.simps) simp
  next
    case True
    let ?ys = "pop_heap cmp first (lst - 1) (lst - 1) xs"
    have a: "length ?ys = length xs" "mset ?ys = mset xs"
      using pop_heap_perm[of first "lst - 1" xs "lst - 1" cmp] True "1.prems" by simp_all
    have "length (sort_heap cmp first (lst - 1) ?ys) = length ?ys
       \<and> mset (sort_heap cmp first (lst - 1) ?ys) = mset ?ys"
      using "1.IH"[OF True] "1.prems" a by simp
    then show ?thesis using True a by (subst (1 2) sort_heap.simps) simp
  qed
qed

lemma heap_select_loop_perm:
  "first < middle \<Longrightarrow> middle \<le> length xs \<Longrightarrow> lst \<le> length xs \<Longrightarrow>
     length (heap_select_loop cmp first middle i lst xs) = length xs
     \<and> mset (heap_select_loop cmp first middle i lst xs) = mset xs"
proof (induction cmp first middle i lst xs rule: heap_select_loop.induct)
  case (1 cmp first middle i lst xs)
  show ?case
  proof (cases "i < lst")
    case False
    then show ?thesis by (subst (1 2) heap_select_loop.simps) simp
  next
    case True
    let ?ys = "if cmp (xs ! i) (xs ! first) then pop_heap cmp first middle i xs else xs"
    have a: "length ?ys = length xs" "mset ?ys = mset xs"
      using pop_heap_perm[of first middle xs i cmp] True "1.prems" by simp_all
    have "length (heap_select_loop cmp first middle (Suc i) lst ?ys) = length ?ys
       \<and> mset (heap_select_loop cmp first middle (Suc i) lst ?ys) = mset ?ys"
      using "1.IH"[OF True] "1.prems" a by simp
    then show ?thesis using True a by (subst (1 2) heap_select_loop.simps) simp
  qed
qed

lemma partial_sort_perm:
  assumes "first < middle" "middle \<le> length xs" "lst \<le> length xs"
  shows "length (partial_sort cmp first middle lst xs) = length xs"
    and "mset (partial_sort cmp first middle lst xs) = mset xs"
proof -
  let ?a = "make_heap cmp first middle xs"
  have a: "length ?a = length xs" "mset ?a = mset xs"
    using make_heap_perm[OF assms(2), of cmp first] by simp_all
  let ?b = "heap_select_loop cmp first middle middle lst ?a"
  have b: "length ?b = length xs" "mset ?b = mset xs"
    using heap_select_loop_perm[of first middle ?a lst cmp middle] assms a by simp_all
  show "length (partial_sort cmp first middle lst xs) = length xs"
    and "mset (partial_sort cmp first middle lst xs) = mset xs"
    using sort_heap_perm[of middle ?b cmp first] assms b
    by (simp_all add: partial_sort_def heap_select_def)
qed

subsection \<open>Introsort\<close>

lemma introsort_loop_perm:
  "lst \<le> length xs \<Longrightarrow>
     length (introsort_loop cmp first lst depth_limit xs) = length xs
     \<and> mset (introsort_loop cmp first lst depth_limit xs) = mset xs"
proof (induction depth_limit arbitrary: first lst xs)
  case 0
  show ?case
  proof (cases "lst - first > S_threshold")
    case False
    then show ?thesis by (subst (1 2) introsort_loop.simps) simp
  next
    case True
    then have "first < lst" by simp
    then show ?thesis
      using True partial_sort_perm[of first lst xs lst cmp] 0
      by (subst (1 2) introsort_loop.simps) simp
  qed
next
  case (Suc d)
  show ?case
  proof (cases "lst - first > S_threshold")
    case False
    then show ?thesis by (subst (1 2) introsort_loop.simps) simp
  next
    case True
    obtain cut1 xs1 where p: "unguarded_partition_pivot cmp first lst xs = (cut1, xs1)"
      by (cases "unguarded_partition_pivot cmp first lst xs")
    have q: "length xs1 = length xs" "mset xs1 = mset xs" "cut1 \<le> length xs"
      using unguarded_partition_pivot_perm[OF Suc.prems True, of cmp] p by simp_all
    let ?ys = "introsort_loop cmp cut1 lst d xs1"
    have a: "length ?ys = length xs1 \<and> mset ?ys = mset xs1"
      using Suc.IH[of lst xs1 cut1] Suc.prems q by simp
    have b: "length (introsort_loop cmp first cut1 d ?ys) = length ?ys
       \<and> mset (introsort_loop cmp first cut1 d ?ys) = mset ?ys"
      using Suc.IH[of cut1 ?ys first] a q by simp
    show ?thesis
      using True p a b q by (subst (1 2) introsort_loop.simps) simp
  qed
qed


section \<open>The sort the program runs sorts\<close>

text \<open>
  The last pass alone orders the vector: it is an insertion sort of the whole range,
  whatever the introsort loop has left.
\<close>

lemma linear_insert_loop_perm:
  "j < length xs \<Longrightarrow>
     length (linear_insert_loop cmp v j xs) = length xs
     \<and> mset (linear_insert_loop cmp v j xs) = mset (xs[j := v])"
proof (induction cmp v j xs rule: linear_insert_loop.induct)
  case (1 cmp v j xs)
  show ?case
  proof (cases "0 < j \<and> cmp v (xs ! (j - 1))")
    case False
    then show ?thesis by (subst (1 2) linear_insert_loop.simps) auto
  next
    case True
    let ?ys = "xs[j := xs ! (j - 1)]"
    have jb: "j - 1 < length xs" using "1.prems" by simp
    have IH: "length (linear_insert_loop cmp v (j - 1) ?ys) = length ?ys
       \<and> mset (linear_insert_loop cmp v (j - 1) ?ys) = mset (?ys[j - 1 := v])"
      using "1.IH"[OF True] jb by simp
    have "mset (?ys[j - 1 := v]) = mset (xs[j := v])"
      using mset_update_hole[OF "1.prems" jb, of v] by simp
    then show ?thesis using True IH by (subst (1 2) linear_insert_loop.simps) simp
  qed
qed

lemma unguarded_linear_insert_perm:
  "i < length xs \<Longrightarrow>
     length (unguarded_linear_insert cmp i xs) = length xs
     \<and> mset (unguarded_linear_insert cmp i xs) = mset xs"
  using linear_insert_loop_perm[of i xs cmp "xs ! i"] by (simp add: unguarded_linear_insert_def)

lemma take_Suc_update:
  "j \<le> i \<Longrightarrow> i < length xs \<Longrightarrow>
     take (Suc i) (xs[j := v]) = take j xs @ v # take (i - j) (drop (Suc j) xs)"
  by (simp add: upd_conv_take_nth_drop min_def Suc_diff_le)

text \<open>
  While the value \<open>v\<close> travels down, the elements before the hole and the elements it
  has passed form a sorted list, and it is less than each element it has passed.
\<close>

lemma linear_insert_loop_sorted:
  "strict_weak_order cmp \<Longrightarrow> j \<le> i \<Longrightarrow> i < length xs
    \<Longrightarrow> sorted_wrt (\<lambda>a b. \<not> cmp b a) (take j xs @ take (i - j) (drop (Suc j) xs))
    \<Longrightarrow> (\<forall>b \<in> set (take (i - j) (drop (Suc j) xs)). cmp v b)
    \<Longrightarrow> sorted_wrt (\<lambda>a b. \<not> cmp b a) (take (Suc i) (linear_insert_loop cmp v j xs))"
proof (induction cmp v j xs rule: linear_insert_loop.induct)
  case (1 cmp v j xs)
  note swo = "1.prems"(1) and ji = "1.prems"(2) and il = "1.prems"(3)
    and srt = "1.prems"(4) and gt = "1.prems"(5)
  let ?A = "take j xs"
  let ?B = "take (i - j) (drop (Suc j) xs)"
  show ?case
  proof (cases "0 < j \<and> cmp v (xs ! (j - 1))")
    case False
    have e: "take (Suc i) (linear_insert_loop cmp v j xs) = ?A @ v # ?B"
      using False ji il by (subst linear_insert_loop.simps) (auto simp: take_Suc_update)
    have vB: "\<forall>b \<in> set ?B. \<not> cmp b v"
      using gt swo_asym[OF swo] by blast
    have Av: "\<forall>a \<in> set ?A. \<not> cmp v a"
    proof (cases "j = 0")
      case True
      then show ?thesis by simp
    next
      case j: False
      then have nl: "\<not> cmp v (xs ! (j - 1))" using False by simp
      have sA: "sorted_wrt (\<lambda>a b. \<not> cmp b a) ?A"
        using srt by (simp add: sorted_wrt_append)
      show ?thesis
      proof
        fix a assume "a \<in> set ?A"
        then obtain k where k: "k < j" "a = xs ! k"
          using ji il by (auto simp: in_set_conv_nth)
        show "\<not> cmp v a"
        proof (cases "k = j - 1")
          case True
          then show ?thesis using nl k by simp
        next
          case False
          then have "k < j - 1" using k by simp
          then have "\<not> cmp (?A ! (j - 1)) (?A ! k)"
            using sA j ji il by (simp add: sorted_wrt_iff_nth_less)
          then have "\<not> cmp (xs ! (j - 1)) a" using k j by simp
          then show ?thesis using swo_neg_trans[OF swo nl] by blast
        qed
      qed
    qed
    show ?thesis
      unfolding e using srt vB Av
      by (auto simp: sorted_wrt_append)
  next
    case True
    let ?ys = "xs[j := xs ! (j - 1)]"
    have jb: "j - 1 < length xs" "j < length xs" using ji il by simp_all
    have A: "take (j - 1) ?ys = take (j - 1) xs" using True by simp
    have B: "take (i - (j - 1)) (drop (Suc (j - 1)) ?ys) = xs ! (j - 1) # ?B"
    proof -
      have "drop j ?ys = xs ! (j - 1) # drop (Suc j) xs"
        using jb by (simp add: upd_conv_take_nth_drop)
      moreover have "i - (j - 1) = Suc (i - j)" using True ji by simp
      ultimately show ?thesis using True by simp
    qed
    have AB: "take (j - 1) xs @ xs ! (j - 1) # ?B = ?A @ ?B"
    proof -
      have "take j xs = take (j - 1) xs @ [xs ! (j - 1)]"
        using True jb take_Suc_conv_app_nth[of "j - 1" xs] by simp
      then show ?thesis by simp
    qed
    have s: "sorted_wrt (\<lambda>a b. \<not> cmp b a)
        (take (j - 1) ?ys @ take (i - (j - 1)) (drop (Suc (j - 1)) ?ys))"
      unfolding A B AB using srt .
    have g: "\<forall>b \<in> set (take (i - (j - 1)) (drop (Suc (j - 1)) ?ys)). cmp v b"
      unfolding B using True gt by simp
    have "sorted_wrt (\<lambda>a b. \<not> cmp b a) (take (Suc i) (linear_insert_loop cmp v (j - 1) ?ys))"
      using "1.IH"[OF True swo _ _ s g] ji il by simp
    then show ?thesis using True by (subst linear_insert_loop.simps) simp
  qed
qed

lemma unguarded_linear_insert_sorted:
  assumes "strict_weak_order cmp" "i < length xs"
    and "sorted_wrt (\<lambda>a b. \<not> cmp b a) (take i xs)"
  shows "sorted_wrt (\<lambda>a b. \<not> cmp b a) (take (Suc i) (unguarded_linear_insert cmp i xs))"
  unfolding unguarded_linear_insert_def
  using linear_insert_loop_sorted[OF assms(1), of i i xs "xs ! i"] assms by simp


lemma move_backward_nth:
  "lst < length xs \<Longrightarrow> result = Suc lst \<Longrightarrow>
     length (move_backward first lst result xs) = length xs
     \<and> (\<forall>p < length xs. move_backward first lst result xs ! p
            = (if first < p \<and> p \<le> lst then xs ! (p - 1) else xs ! p))"
proof (induction first lst result xs rule: move_backward.induct)
  case (1 first lst result xs)
  show ?case
  proof (cases "first < lst")
    case False
    then show ?thesis by (subst (1 2) move_backward.simps) auto
  next
    case True
    let ?ys = "xs[result - 1 := xs ! (lst - 1)]"
    have IH: "length (move_backward first (lst - 1) (result - 1) ?ys) = length ?ys
     \<and> (\<forall>p < length ?ys. move_backward first (lst - 1) (result - 1) ?ys ! p
            = (if first < p \<and> p \<le> lst - 1 then ?ys ! (p - 1) else ?ys ! p))"
      using "1.IH"[OF True] True "1.prems" by simp
    have e: "move_backward first lst result xs = move_backward first (lst - 1) (result - 1) ?ys"
      using True by (subst move_backward.simps) simp
    show ?thesis
      unfolding e using IH True "1.prems"
      by (auto simp: nth_list_update)
  qed
qed

lemma move_backward_front:
  assumes "i < length xs"
  shows "(move_backward 0 i (Suc i) xs)[0 := v] = v # take i xs @ drop (Suc i) xs"
proof (rule nth_equalityI)
  have l: "length (move_backward 0 i (Suc i) xs) = length xs"
    using move_backward_nth[OF assms refl, of 0] by simp
  show "length ((move_backward 0 i (Suc i) xs)[0 := v]) = length (v # take i xs @ drop (Suc i) xs)"
    using assms l by simp
  fix p assume "p < length ((move_backward 0 i (Suc i) xs)[0 := v])"
  then have p: "p < length xs" using l by simp
  have n: "move_backward 0 i (Suc i) xs ! p = (if 0 < p \<and> p \<le> i then xs ! (p - 1) else xs ! p)"
    using move_backward_nth[OF assms refl, of 0] p by simp
  show "(move_backward 0 i (Suc i) xs)[0 := v] ! p = (v # take i xs @ drop (Suc i) xs) ! p"
  proof (cases "p = 0")
    case True
    then show ?thesis using l p by simp
  next
    case False
    then show ?thesis using n p assms l
      by (auto simp: nth_Cons' nth_append)
  qed
qed

lemma insertion_step:
  assumes swo: "strict_weak_order cmp" and i: "0 < i" "i < length xs"
    and s: "sorted_wrt (\<lambda>a b. \<not> cmp b a) (take i xs)"
  shows "length (if cmp (xs ! i) (xs ! 0)
                 then (move_backward 0 i (Suc i) xs)[0 := xs ! i]
                 else unguarded_linear_insert cmp i xs) = length xs
    \<and> mset (if cmp (xs ! i) (xs ! 0)
             then (move_backward 0 i (Suc i) xs)[0 := xs ! i]
             else unguarded_linear_insert cmp i xs) = mset xs
    \<and> sorted_wrt (\<lambda>a b. \<not> cmp b a)
         (take (Suc i) (if cmp (xs ! i) (xs ! 0)
                        then (move_backward 0 i (Suc i) xs)[0 := xs ! i]
                        else unguarded_linear_insert cmp i xs))"
proof (cases "cmp (xs ! i) (xs ! 0)")
  case False
  then show ?thesis
    using unguarded_linear_insert_perm[OF i(2), of cmp]
      unguarded_linear_insert_sorted[OF swo i(2) s] by simp
next
  case True
  let ?v = "xs ! i"
  have e: "(move_backward 0 i (Suc i) xs)[0 := ?v] = ?v # take i xs @ drop (Suc i) xs"
    by (rule move_backward_front[OF i(2)])
  have m: "mset (?v # take i xs @ drop (Suc i) xs) = mset xs"
  proof -
    have "xs = take i xs @ ?v # drop (Suc i) xs" using i(2) by (rule id_take_nth_drop)
    then have "mset xs = mset (take i xs @ ?v # drop (Suc i) xs)" by simp
    then show ?thesis by simp
  qed
  have lo: "\<forall>a \<in> set (take i xs). \<not> cmp a ?v"
  proof
    fix a assume "a \<in> set (take i xs)"
    then obtain k where k: "k < i" "a = xs ! k" using i by (auto simp: in_set_conv_nth)
    have "\<not> cmp a (xs ! 0)"
    proof (cases "k = 0")
      case True
      then show ?thesis using k swo by (simp add: strict_weak_order_def)
    next
      case False
      then have "\<not> cmp (take i xs ! k) (take i xs ! 0)"
        using s k i by (simp add: sorted_wrt_iff_nth_less)
      then show ?thesis using k i by simp
    qed
    moreover have "cmp a ?v \<Longrightarrow> cmp a (xs ! 0)"
      using True swo unfolding strict_weak_order_def by blast
    ultimately show "\<not> cmp a ?v" by blast
  qed
  have t: "take (Suc i) (?v # take i xs @ drop (Suc i) xs) = ?v # take i xs"
    using i by simp
  show ?thesis
    using True i m lo s unfolding e t by simp
qed

lemma insertion_sort_loop_sorted:
  "strict_weak_order cmp \<Longrightarrow> first = 0 \<Longrightarrow> 0 < i \<Longrightarrow> i \<le> n \<Longrightarrow> n \<le> length xs
    \<Longrightarrow> sorted_wrt (\<lambda>a b. \<not> cmp b a) (take i xs)
    \<Longrightarrow> length (insertion_sort_loop cmp first i n xs) = length xs
      \<and> mset (insertion_sort_loop cmp first i n xs) = mset xs
      \<and> sorted_wrt (\<lambda>a b. \<not> cmp b a) (take n (insertion_sort_loop cmp first i n xs))"
proof (induction cmp first i n xs rule: insertion_sort_loop.induct)
  case (1 cmp first i n xs)
  note swo = "1.prems"(1) and f = "1.prems"(2) and i0 = "1.prems"(3) and le = "1.prems"(4)
    and n = "1.prems"(5) and s = "1.prems"(6)
  show ?case
  proof (cases "i < n")
    case False
    then have "i = n" using le by simp
    then show ?thesis using s False by (subst (1 2 3) insertion_sort_loop.simps) simp
  next
    case True
    let ?ys = "if cmp (xs ! i) (xs ! first)
               then (move_backward first i (Suc i) xs)[first := xs ! i]
               else unguarded_linear_insert cmp i xs"
    have il: "i < length xs" using True n by simp
    have st: "length ?ys = length xs \<and> mset ?ys = mset xs
       \<and> sorted_wrt (\<lambda>a b. \<not> cmp b a) (take (Suc i) ?ys)"
      unfolding f by (rule insertion_step[OF swo i0 il s])
    have IH: "length (insertion_sort_loop cmp first (Suc i) n ?ys) = length ?ys
      \<and> mset (insertion_sort_loop cmp first (Suc i) n ?ys) = mset ?ys
      \<and> sorted_wrt (\<lambda>a b. \<not> cmp b a) (take n (insertion_sort_loop cmp first (Suc i) n ?ys))"
      using "1.IH"[OF True swo f] True n st by simp
    have e: "insertion_sort_loop cmp first i n xs = insertion_sort_loop cmp first (Suc i) n ?ys"
      using True by (subst insertion_sort_loop.simps) simp
    show ?thesis unfolding e using IH st by simp
  qed
qed

lemma unguarded_insertion_sort_sorted:
  "strict_weak_order cmp \<Longrightarrow> i \<le> n \<Longrightarrow> n \<le> length xs
    \<Longrightarrow> sorted_wrt (\<lambda>a b. \<not> cmp b a) (take i xs)
    \<Longrightarrow> length (unguarded_insertion_sort cmp i n xs) = length xs
      \<and> mset (unguarded_insertion_sort cmp i n xs) = mset xs
      \<and> sorted_wrt (\<lambda>a b. \<not> cmp b a) (take n (unguarded_insertion_sort cmp i n xs))"
proof (induction cmp i n xs rule: unguarded_insertion_sort.induct)
  case (1 cmp i n xs)
  note swo = "1.prems"(1) and le = "1.prems"(2) and n = "1.prems"(3) and s = "1.prems"(4)
  show ?case
  proof (cases "i < n")
    case False
    then have "i = n" using le by simp
    then show ?thesis using s False by (subst (1 2 3) unguarded_insertion_sort.simps) simp
  next
    case True
    let ?ys = "unguarded_linear_insert cmp i xs"
    have il: "i < length xs" using True n by simp
    have st: "length ?ys = length xs \<and> mset ?ys = mset xs
       \<and> sorted_wrt (\<lambda>a b. \<not> cmp b a) (take (Suc i) ?ys)"
      using unguarded_linear_insert_perm[OF il, of cmp]
        unguarded_linear_insert_sorted[OF swo il s] by simp
    have IH: "length (unguarded_insertion_sort cmp (Suc i) n ?ys) = length ?ys
      \<and> mset (unguarded_insertion_sort cmp (Suc i) n ?ys) = mset ?ys
      \<and> sorted_wrt (\<lambda>a b. \<not> cmp b a) (take n (unguarded_insertion_sort cmp (Suc i) n ?ys))"
      using "1.IH"[OF True swo] True n st by simp
    have e: "unguarded_insertion_sort cmp i n xs = unguarded_insertion_sort cmp (Suc i) n ?ys"
      using True by (subst unguarded_insertion_sort.simps) simp
    show ?thesis unfolding e using IH st by simp
  qed
qed

lemma stl_insertion_sort_sorted:
  assumes "strict_weak_order cmp" "n \<le> length xs"
  shows "length (stl_insertion_sort cmp 0 n xs) = length xs
      \<and> mset (stl_insertion_sort cmp 0 n xs) = mset xs
      \<and> sorted_wrt (\<lambda>a b. \<not> cmp b a) (take n (stl_insertion_sort cmp 0 n xs))"
proof (cases "n = 0")
  case True
  then show ?thesis by (simp add: stl_insertion_sort_def)
next
  case False
  have "sorted_wrt (\<lambda>a b. \<not> cmp b a) (take (Suc 0) xs)"
    by (cases xs) simp_all
  then show ?thesis
    using False insertion_sort_loop_sorted[OF assms(1) refl, of "Suc 0" n xs] assms(2)
    by (simp add: stl_insertion_sort_def)
qed

lemma final_insertion_sort_sorted:
  assumes swo: "strict_weak_order cmp"
  shows "mset (final_insertion_sort cmp 0 (length xs) xs) = mset xs
      \<and> sorted_wrt (\<lambda>a b. \<not> cmp b a) (final_insertion_sort cmp 0 (length xs) xs)"
proof (cases "length xs > S_threshold")
  case False
  let ?ys = "stl_insertion_sort cmp 0 (length xs) xs"
  have a: "length ?ys = length xs" "mset ?ys = mset xs"
    "sorted_wrt (\<lambda>a b. \<not> cmp b a) (take (length xs) ?ys)"
    using stl_insertion_sort_sorted[OF swo order_refl, of xs] by blast+
  have "take (length xs) ?ys = ?ys" using a(1) by simp
  then have "sorted_wrt (\<lambda>a b. \<not> cmp b a) ?ys" using a(3) by simp
  then show ?thesis
    using False a by (simp add: final_insertion_sort_def)
next
  case True
  let ?ys = "stl_insertion_sort cmp 0 S_threshold xs"
  let ?zs = "unguarded_insertion_sort cmp S_threshold (length xs) ?ys"
  have n16: "S_threshold \<le> length xs" using True by simp
  have a: "length ?ys = length xs" "mset ?ys = mset xs"
    "sorted_wrt (\<lambda>a b. \<not> cmp b a) (take S_threshold ?ys)"
    using stl_insertion_sort_sorted[OF swo n16] by blast+
  have nl: "length xs \<le> length ?ys" using a(1) by simp
  have b: "length ?zs = length ?ys" "mset ?zs = mset ?ys"
      "sorted_wrt (\<lambda>a b. \<not> cmp b a) (take (length xs) ?zs)"
    using unguarded_insertion_sort_sorted[OF swo n16 nl a(3)] by blast+
  have "take (length xs) ?zs = ?zs" using a(1) b(1) by simp
  then have "sorted_wrt (\<lambda>a b. \<not> cmp b a) ?zs" using b(3) by simp
  then show ?thesis
    using True a b by (simp add: final_insertion_sort_def)
qed

text \<open>
  The sort the program runs meets the contract of \<^verbatim>\<open>std::sort\<close>: what is proved
  below of every sort that meets it holds of the program as GCC builds it.
\<close>

lemma std_sort_meets_contract: "std_sort_contract std_sort"
  unfolding std_sort_contract_def
proof (intro allI impI)
  fix cmp :: "'a \<Rightarrow> 'a \<Rightarrow> bool" and xs
  assume swo: "strict_weak_order cmp"
  show "mset (std_sort cmp xs) = mset xs \<and> sorted_wrt (\<lambda>a b. \<not> cmp b a) (std_sort cmp xs)"
  proof (cases "xs = []")
    case True
    then show ?thesis by (simp add: std_sort_def)
  next
    case False
    let ?ys = "introsort_loop cmp 0 (length xs) (lg (length xs) * 2) xs"
    have a: "length ?ys = length xs" "mset ?ys = mset xs"
      using introsort_loop_perm[of "length xs" xs cmp 0 "lg (length xs) * 2"] by simp_all
    have "mset (final_insertion_sort cmp 0 (length ?ys) ?ys) = mset ?ys
      \<and> sorted_wrt (\<lambda>a b. \<not> cmp b a) (final_insertion_sort cmp 0 (length ?ys) ?ys)"
      by (rule final_insertion_sort_sorted[OF swo])
    then show ?thesis using False a by (simp add: std_sort_def)
  qed
qed

section \<open>The final sort of recognize\<close>

lemma byConfidence_swo: "strict_weak_order byConfidence"
  by (auto simp: strict_weak_order_def byConfidence_def)

lemma final_sort_sorted:
  assumes "std_sort_contract srt"
  shows "sorted_wrt (\<lambda>a b. confidence a \<ge> confidence b) (srt byConfidence cs)"
proof -
  have "sorted_wrt (\<lambda>a b. \<not> byConfidence b a) (srt byConfidence cs)"
    using assms byConfidence_swo unfolding std_sort_contract_def by blast
  then show ?thesis by (simp add: byConfidence_def not_less)
qed

lemma final_sort_mset:
  "std_sort_contract srt \<Longrightarrow> mset (srt byConfidence cs) = mset cs"
  using byConfidence_swo unfolding std_sort_contract_def by blast

text \<open>
  C4 (as amended). Whatever sort meets the contract of \<^verbatim>\<open>std::sort\<close>, the
  final step of \<^const>\<open>recognize\<close> returns the candidates in non-increasing order
  of confidence, and they are candidates that were scored: a sub-multiset of the scored
  ones, all of them when the limit does not cut the list. Nothing is said about the order
  of candidates with equal confidence.
\<close>

theorem final_sort_orders_by_confidence:
  assumes "std_sort_contract srt"
  shows "sorted_wrt (\<lambda>a b. confidence a \<ge> confidence b) (sortAndPrune srt n cs)
     \<and> mset (sortAndPrune srt n cs) \<subseteq># mset cs
     \<and> (int (length cs) \<le> n \<longrightarrow> mset (sortAndPrune srt n cs) = mset cs)"
proof -
  let ?s = "srt byConfidence cs"
  have s: "sorted_wrt (\<lambda>a b. confidence a \<ge> confidence b) ?s" by (rule final_sort_sorted[OF assms])
  have m: "mset ?s = mset cs" by (rule final_sort_mset[OF assms])
  then have l: "length ?s = length cs" by (metis size_mset)
  have t: "sorted_wrt (\<lambda>a b. confidence a \<ge> confidence b) (take (nat n) ?s)"
    using s by (rule sorted_wrt_take)
  have "mset (take (nat n) ?s) \<subseteq># mset ?s"
    by (metis append_take_drop_id mset_append mset_subset_eq_add_left)
  then have sub: "mset (take (nat n) ?s) \<subseteq># mset cs" using m by simp
  show ?thesis using s t m sub l by (simp add: sortAndPrune_def Let_def)
qed

theorem final_sort_orders_by_confidence_witness:
  "sorted_wrt (\<lambda>a b. confidence a \<ge> confidence b)
     (sortAndPrune std_sort 20 [cand_first, cand_second])
   \<and> mset (sortAndPrune std_sort 20 [cand_first, cand_second])
        \<subseteq># mset [cand_first, cand_second]
   \<and> mset (sortAndPrune std_sort 20 [cand_first, cand_second])
        = mset [cand_first, cand_second]
   \<and> sortAndPrune std_sort 20 [cand_first, cand_second] = [cand_first, cand_second]"
proof -
  have "sortAndPrune std_sort 20 [cand_first, cand_second] = [cand_first, cand_second]"
    by code_simp
  then show ?thesis
    using final_sort_orders_by_confidence[OF std_sort_meets_contract, of 20 "[cand_first, cand_second]"]
    by simp
qed

section \<open>The output of recognize\<close>

lemma load_inv: "dict_inv (snd (load fs p d))"
  by (simp add: load_def parseFromBuffer_inv unload_inv split: option.splits)

lemma snd_init_case:
  "dictLoader (snd (case r of (False, d) \<Rightarrow> (False, reportError (dict_lastError d) (e\<lparr>dictLoader := d\<rparr>))
                     | (True, d) \<Rightarrow> (True, finish_init layout (e\<lparr>dictLoader := d\<rparr>))))
     = snd r"
  by (cases r; cases "fst r"; simp add: reportError_def finish_init_def)

lemma recognize_dictLoader: "dictLoader (snd (recognize srt e raw n)) = dictLoader e"
  by (simp add: recognize_def Let_def reportError_def split: prod.splits)

lemma engine_state_dict_inv: "engine_state e \<Longrightarrow> dict_inv (dictLoader e)"
proof (induction rule: engine_state.induct)
  case es_new
  show ?case by (simp add: new_engine_def new_loader_def dict_inv_def)
next
  case (es_init e fs layout dictPath)
  then show ?case by (simp add: init_def snd_init_case load_inv reportError_def)
next
  case (es_initWithData e layout dictData)
  then show ?case by (simp add: initWithData_def snd_init_case loadFromMemory_inv reportError_def)
next
  case (es_recognize e srt rawPath maxCandidates)
  then show ?case by (simp add: recognize_dictLoader)
next
  case (es_updateLayout e layout)
  then show ?case by (simp add: updateLayout_def reportError_def)
next
  case (es_configure e config)
  then show ?case by (simp add: configure_def)
next
  case (es_shutdown e)
  then show ?case by (simp add: shutdown_def unload_inv)
qed

lemma score_loop_entries:
  "fst ` set (fst (score_loop s np es gen acc)) \<subseteq> fst ` set acc \<union> set es"
proof (induction es arbitrary: gen acc)
  case Nil
  show ?case by simp
next
  case (Cons en es)
  obtain ideal gen' where g: "getIdealPath (entry_word en) gen = (ideal, gen')"
    by (cases "getIdealPath (entry_word en) gen")
  show ?case
  proof (cases "isValid ideal")
    case True
    then show ?thesis using Cons.IH[of gen' "acc @ [(en, computeDTWDistance s np ideal)]"] g
      by auto
  next
    case False
    then show ?thesis using Cons.IH[of gen' acc] g by auto
  qed
qed

lemma selectCandidates_entries: "set (selectCandidates d sc ec h) \<subseteq> set (entries d)"
  by (auto simp: selectCandidates_def Let_def getEntriesWithStartEnd_def
      getEntriesStartingWith_def getAllEntries_def split: if_splits)

lemma lengthFilter_entries: "set (lengthFilter est tol es) \<subseteq> set es"
  by (auto simp: lengthFilter_def Let_def)

text \<open>
  Every return of \<^const>\<open>recognize\<close>: the empty list, or the sorted and pruned
  candidates of a non-empty list of scored dictionary entries.
\<close>

lemma recognize_result:
  "fst (recognize srt e raw n) = []
   \<or> (\<exists>scored. scored \<noteq> [] \<and> fst ` set scored \<subseteq> set (entries (dictLoader e))
        \<and> fst (recognize srt e raw n)
            = sortAndPrune srt (max 1 (min n MAX_MAX_CANDIDATES))
                (map (makeCandidate (maxDTW_of (eng_config e) scored)
                        (effectiveAlpha_of (eng_config e) scored)
                        (getMaxFrequency (dictLoader e))) scored))"
proof -
  let ?np = "normalize (pathProcessor e) raw (eng_layout e)"
  obtain sc ec h where se: "startEndChars (eng_layout e) ?np = (sc, ec, h)"
    by (cases "startEndChars (eng_layout e) ?np") auto
  let ?filtered = "lengthFilter (estimateWordLengthByKeyTransitions e raw)
                     (lengthFilterTolerance (eng_config e))
                     (selectCandidates (dictLoader e) sc ec h)"
  obtain scored gen' where sl: "score_loop (scorer e) ?np ?filtered (idealPathGen e) [] = (scored, gen')"
    by (cases "score_loop (scorer e) ?np ?filtered (idealPathGen e) []") auto
  have sub: "fst ` set scored \<subseteq> set (entries (dictLoader e))"
    using score_loop_entries[of "scorer e" ?np ?filtered "idealPathGen e" "[]"] sl
      lengthFilter_entries selectCandidates_entries by fastforce
  show ?thesis
    using se sl sub by (auto simp: recognize_def Let_def)
qed

lemma sortAndPrune_length:
  assumes "std_sort_contract srt" "1 \<le> m"
  shows "int (length (sortAndPrune srt m cs)) \<le> m"
  using assms by (auto simp: sortAndPrune_def Let_def)

text \<open>
  C5. For every engine, raw path and integer \<open>maxCandidates\<close>, the list that
  \<^const>\<open>recognize\<close> returns has at most \<open>clamp(maxCandidates, 1, 20)\<close> elements
  and its confidences do not increase from front to back (with any sort that meets the
  contract of \<^verbatim>\<open>std::sort\<close>).
\<close>

theorem recognize_length_and_order:
  assumes "std_sort_contract srt"
  shows "int (length (fst (recognize srt e rawPath maxCandidates)))
           \<le> max 1 (min maxCandidates 20)
     \<and> sorted_wrt (\<lambda>a b. confidence a \<ge> confidence b) (fst (recognize srt e rawPath maxCandidates))"
proof -
  from recognize_result[of srt e rawPath maxCandidates]
  show ?thesis
  proof
    assume "fst (recognize srt e rawPath maxCandidates) = []"
    then show ?thesis by simp
  next
    assume "\<exists>scored. scored \<noteq> [] \<and> fst ` set scored \<subseteq> set (entries (dictLoader e))
        \<and> fst (recognize srt e rawPath maxCandidates)
            = sortAndPrune srt (max 1 (min maxCandidates MAX_MAX_CANDIDATES))
                (map (makeCandidate (maxDTW_of (eng_config e) scored)
                        (effectiveAlpha_of (eng_config e) scored)
                        (getMaxFrequency (dictLoader e))) scored)"
    then obtain cs where r: "fst (recognize srt e rawPath maxCandidates)
        = sortAndPrune srt (max 1 (min maxCandidates MAX_MAX_CANDIDATES)) cs"
      by blast
    have "int (length (sortAndPrune srt (max 1 (min maxCandidates MAX_MAX_CANDIDATES)) cs))
            \<le> max 1 (min maxCandidates MAX_MAX_CANDIDATES)"
      by (rule sortAndPrune_length[OF assms]) simp
    moreover have "sorted_wrt (\<lambda>a b. confidence a \<ge> confidence b)
        (sortAndPrune srt (max 1 (min maxCandidates MAX_MAX_CANDIDATES)) cs)"
      using final_sort_sorted[OF assms, of cs]
      by (simp add: sortAndPrune_def Let_def sorted_wrt_take)
    ultimately show ?thesis by (simp add: r MAX_MAX_CANDIDATES_def)
  qed
qed

lemma makeCandidate_confidence:
  "0 \<le> confidence (makeCandidate maxDTW alpha maxFreq s)
   \<and> confidence (makeCandidate maxDTW alpha maxFreq s) \<le> 1"
  by (simp add: makeCandidate_def Let_def)

lemma ratio_bounds:
  fixes a b :: real
  assumes "0 \<le> a" "a \<le> b"
  shows "0 \<le> (if P then a / b else 0) \<and> (if P then a / b else 0) \<le> 1"
  using assms by (cases "b = 0") (auto simp: divide_le_eq_1)

lemma makeCandidate_frequencyScore:
  assumes "frequency (fst s) \<le> maxFreq"
  shows "0 \<le> frequencyScore (makeCandidate maxDTW alpha maxFreq s)
   \<and> frequencyScore (makeCandidate maxDTW alpha maxFreq s) \<le> 1"
proof -
  have "unat (frequency (fst s)) \<le> unat maxFreq" using assms by (simp add: word_le_nat_alt)
  then have le: "real (unat (frequency (fst s))) \<le> real (unat maxFreq)"
    by (simp only: of_nat_le_iff)
  have nn: "0 \<le> real (unat (frequency (fst s)))" by (rule of_nat_0_le_iff)
  have fs: "frequencyScore (makeCandidate maxDTW alpha maxFreq s)
      = (if maxFreq > 0 then real (unat (frequency (fst s))) / real (unat maxFreq) else 0)"
    by (simp add: makeCandidate_def Let_def)
  show ?thesis unfolding fs by (rule ratio_bounds[OF nn le])
qed

lemma sortAndPrune_sub:
  assumes "std_sort_contract srt"
  shows "mset (sortAndPrune srt n cs) \<subseteq># mset cs"
proof -
  let ?s = "srt byConfidence cs"
  have m: "mset ?s = mset cs" by (rule final_sort_mset[OF assms])
  have "mset (take (nat n) ?s) \<subseteq># mset ?s"
    by (metis append_take_drop_id mset_append mset_subset_eq_add_left)
  then show ?thesis using m by (simp add: sortAndPrune_def Let_def)
qed

text \<open>
  C6. In every state an engine can reach, every candidate that \<^const>\<open>recognize\<close>
  returns has its confidence and its frequency score between 0 and 1. The frequency score
  is the unclamped quotient of the entry's frequency and the store's maximum; it is at
  most 1 because the store never holds an entry above its recorded maximum
  (\<open>engine_state_dict_inv\<close>).
\<close>

theorem recognize_candidates_in_range:
  assumes "std_sort_contract srt" and "engine_state e"
  shows "\<forall>c \<in> set (fst (recognize srt e rawPath maxCandidates)). candidate_in_range c"
proof -
  have inv: "dict_inv (dictLoader e)" by (rule engine_state_dict_inv[OF assms(2)])
  from recognize_result[of srt e rawPath maxCandidates]
  show ?thesis
  proof
    assume "fst (recognize srt e rawPath maxCandidates) = []"
    then show ?thesis by simp
  next
    assume "\<exists>scored. scored \<noteq> [] \<and> fst ` set scored \<subseteq> set (entries (dictLoader e))
        \<and> fst (recognize srt e rawPath maxCandidates)
            = sortAndPrune srt (max 1 (min maxCandidates MAX_MAX_CANDIDATES))
                (map (makeCandidate (maxDTW_of (eng_config e) scored)
                        (effectiveAlpha_of (eng_config e) scored)
                        (getMaxFrequency (dictLoader e))) scored)"
    then obtain scored where sub: "fst ` set scored \<subseteq> set (entries (dictLoader e))"
      and r: "fst (recognize srt e rawPath maxCandidates)
            = sortAndPrune srt (max 1 (min maxCandidates MAX_MAX_CANDIDATES))
                (map (makeCandidate (maxDTW_of (eng_config e) scored)
                        (effectiveAlpha_of (eng_config e) scored)
                        (getMaxFrequency (dictLoader e))) scored)"
      by blast
    let ?mk = "makeCandidate (maxDTW_of (eng_config e) scored)
                        (effectiveAlpha_of (eng_config e) scored)
                        (getMaxFrequency (dictLoader e))"
    show ?thesis
    proof
      fix c assume "c \<in> set (fst (recognize srt e rawPath maxCandidates))"
      then have "c \<in># mset (sortAndPrune srt (max 1 (min maxCandidates MAX_MAX_CANDIDATES)) (map ?mk scored))"
        by (simp add: r)
      then have "c \<in># mset (map ?mk scored)"
        using sortAndPrune_sub[OF assms(1)] by (meson mset_subset_eqD)
      then obtain s where s: "s \<in> set scored" and c: "c = ?mk s" by auto
      from s sub have "fst s \<in> set (entries (dictLoader e))" by auto
      then have "frequency (fst s) \<le> getMaxFrequency (dictLoader e)"
        using inv by (simp add: dict_inv_def getMaxFrequency_def)
      then show "candidate_in_range c"
        using makeCandidate_confidence makeCandidate_frequencyScore
        by (simp add: c candidate_in_range_def)
    qed
  qed
qed

lemma test_engine_state: "engine_state test_engine"
  unfolding test_engine_def by (rule es_initWithData[OF es_new])


section \<open>Normalisation constants of recognize\<close>

lemma finite_dtws_finite [simp]: "finite (finite_dtws scored)"
  by (simp add: finite_dtws_def)

lemma finite_dtws_Cons:
  "finite_dtws ((en, d) # rest) = (if d < FLT_MAX then insert d (finite_dtws rest) else finite_dtws rest)"
  by (auto simp: finite_dtws_def)

lemma Max_insert_max:
  fixes m d :: real
  assumes "finite A"
  shows "Max (insert (max m d) A) = Max (insert m (insert d A))"
  using assms by (cases "A = {}") (simp_all add: max.assoc)

lemma Min_insert_min:
  fixes m d :: real
  assumes "finite A"
  shows "Min (insert (min m d) A) = Min (insert m (insert d A))"
  using assms by (cases "A = {}") (simp_all add: min.assoc)

lemma dtwRange_loop_Max:
  "fst (dtwRange_loop scored m mn) = Max (insert m (finite_dtws scored))"
proof (induction scored arbitrary: m mn)
  case Nil
  show ?case by (simp add: finite_dtws_def)
next
  case (Cons s rest)
  obtain en d where s: "s = (en, d)" by (cases s)
  have mx: "(if d > m then d else m) = max m d" by (simp add: max_def)
  show ?case
    unfolding s
    by (simp add: Cons.IH finite_dtws_Cons mx Max_insert_max del: Max_insert)
qed

lemma dtwRange_loop_Min:
  "snd (dtwRange_loop scored m mn) = Min (insert mn (finite_dtws scored))"
proof (induction scored arbitrary: m mn)
  case Nil
  show ?case by (simp add: finite_dtws_def)
next
  case (Cons s rest)
  obtain en d where s: "s = (en, d)" by (cases s)
  have mn': "(if d < mn then d else mn) = min mn d" by (simp add: min_def)
  show ?case
    unfolding s
    by (simp add: Cons.IH finite_dtws_Cons mn' Min_insert_min del: Min_insert)
qed

lemma rawMaxDTW_of_Max: "rawMaxDTW_of scored = Max (insert 0 (finite_dtws scored))"
  by (simp add: rawMaxDTW_of_def dtwRange_loop_Max)

text \<open>
  C7. Among scored entries whose DTW distances are not negative (as every distance of
  \<^const>\<open>computeDTWDistance\<close> is) and of which at least one is finite, the loop of
  step 5 leaves in \<open>rawMaxDTW\<close> the largest finite distance; the normalisation
  constant is the larger of it and 0.01 when two or more entries were scored, and the
  larger of it and the configured floor, 3.0 by default, when exactly one was.
\<close>

theorem maxDTW_normalization:
  assumes nonneg: "\<forall>s \<in> set scored. 0 \<le> snd s"
    and some: "\<exists>s \<in> set scored. snd s < FLT_MAX"
  shows "rawMaxDTW_of scored = Max {d \<in> snd ` set scored. d < FLT_MAX}
    \<and> (length scored \<ge> 2 \<longrightarrow> maxDTW_of config scored = max (rawMaxDTW_of scored) 0.01)
    \<and> (length scored = 1 \<longrightarrow>
          maxDTW_of config scored = max (rawMaxDTW_of scored) (maxDTWFloor config))
    \<and> maxDTWFloor default_config = 3.0"
proof -
  have ne: "finite_dtws scored \<noteq> {}" using some by (auto simp: finite_dtws_def)
  have "\<forall>d \<in> finite_dtws scored. 0 \<le> d" using nonneg by (auto simp: finite_dtws_def)
  then have "0 \<le> Max (finite_dtws scored)" using ne by (auto simp: Max_ge_iff)
  then have "Max (insert 0 (finite_dtws scored)) = Max (finite_dtws scored)"
    using ne by simp
  then have raw: "rawMaxDTW_of scored = Max {d \<in> snd ` set scored. d < FLT_MAX}"
    by (simp add: rawMaxDTW_of_Max finite_dtws_def)
  show ?thesis
    by (simp add: raw[symmetric] maxDTW_of_def default_config_def MAX_DTW_FLOOR_def)
qed

theorem maxDTW_normalization_witness:
  "rawMaxDTW_of two_scored = Max {d \<in> snd ` set two_scored. d < FLT_MAX}
   \<and> maxDTW_of default_config two_scored = max (rawMaxDTW_of two_scored) 0.01
   \<and> rawMaxDTW_of one_scored = Max {d \<in> snd ` set one_scored. d < FLT_MAX}
   \<and> maxDTW_of default_config one_scored = max (rawMaxDTW_of one_scored) 3.0"
proof -
  have h2: "(\<forall>s \<in> set two_scored. 0 \<le> snd s) \<and> (\<exists>s \<in> set two_scored. snd s < FLT_MAX)
      \<and> length two_scored \<ge> 2"
    by (simp add: two_scored_def FLT_MAX_def)
  have h1: "(\<forall>s \<in> set one_scored. 0 \<le> snd s) \<and> (\<exists>s \<in> set one_scored. snd s < FLT_MAX)
      \<and> length one_scored = 1"
    by (simp add: one_scored_def FLT_MAX_def)
  show ?thesis
    using maxDTW_normalization[of two_scored default_config]
      maxDTW_normalization[of one_scored default_config] h1 h2
    by simp
qed

section \<open>The rolling rows compute the matrix\<close>

lemma pointDistance_sym: "pointDistance a b = pointDistance b a"
proof -
  have "(np_x a - np_x b) * (np_x a - np_x b) = (np_x b - np_x a) * (np_x b - np_x a)"
    by (simp add: algebra_simps)
  moreover have "(np_y a - np_y b) * (np_y a - np_y b) = (np_y b - np_y a) * (np_y b - np_y a)"
    by (simp add: algebra_simps)
  ultimately show ?thesis by (simp add: pointDistance_def Let_def)
qed

lemma pointDistance_nonneg: "0 \<le> pointDistance a b"
  by (simp add: pointDistance_def Let_def)

lemma in_band_sym: "in_band W N i j = in_band W N j i"
  by (auto simp: in_band_def)

lemma dtw_matrix_sym:
  "dtw_matrix c W N i j = dtw_matrix (\<lambda>a b. c b a) W N j i"
proof (induction c W N i j rule: dtw_matrix.induct)
  case (1 c W N)
  show ?case by simp
next
  case (2 c W N j)
  then show ?case by (simp add: in_band_sym[of W N 0 "Suc j"] add.commute)
next
  case (3 c W N i)
  then show ?case by (simp add: in_band_sym[of W N "Suc i" 0] add.commute)
next
  case (4 c W N i j)
  then show ?case
    by (simp add: in_band_sym[of W N "Suc i" "Suc j"] Let_def min.commute min.left_commute)
qed

lemma dtw_matrix_out: "\<not> in_band W N i j \<Longrightarrow> dtw_matrix c W N i j = FLT_MAX"
  by (cases i; cases j) (simp_all add: Let_def)

lemma FLT_MAX_pos: "0 < FLT_MAX"
  by (simp add: FLT_MAX_def)

lemma dtw_matrix_nonneg:
  "(\<And>i j. 0 \<le> c i j) \<Longrightarrow> 0 \<le> dtw_matrix c W N i j"
proof (induction c W N i j rule: dtw_matrix.induct)
  case (1 c W N)
  then show ?case using FLT_MAX_pos by simp
next
  case (2 c W N j)
  then show ?case using FLT_MAX_pos by (simp add: add_nonneg_nonneg)
next
  case (3 c W N i)
  then show ?case using FLT_MAX_pos by (simp add: add_nonneg_nonneg)
next
  case (4 c W N i j)
  have "0 \<le> min (min (min FLT_MAX (dtw_matrix c W N i (Suc j))) (dtw_matrix c W N (Suc i) j))
                  (dtw_matrix c W N i j)"
    using 4 FLT_MAX_pos by simp
  then show ?case using 4(4) FLT_MAX_pos by (simp add: Let_def add_nonneg_nonneg)
qed


lemma partial_row_length [simp]: "length (partial_row v N b k) = N"
  by (simp add: partial_row_def)

lemma partial_row_nth: "j < N \<Longrightarrow> partial_row v N b k ! j = (if b \<le> j \<and> j < k then v j else FLT_MAX)"
  by (simp add: partial_row_def)

lemma partial_row_step:
  "b \<le> k \<Longrightarrow> k < N \<Longrightarrow> (partial_row v N b k)[k := v k] = partial_row v N b (Suc k)"
  by (rule nth_equalityI) (auto simp: partial_row_nth nth_list_update)

lemma partial_row_empty: "partial_row v N b b = replicate N FLT_MAX"
  by (rule nth_equalityI) (auto simp: partial_row_nth)

lemma fill_fold:
  assumes step: "\<And>j. lo \<le> j \<Longrightarrow> j < hi \<Longrightarrow>
                   step j (partial_row v N b j) = (partial_row v N b j)[j := v j]"
    and "b \<le> lo" "hi \<le> N" "lo \<le> hi"
  shows "fold step [lo ..< hi] (partial_row v N b lo) = partial_row v N b hi"
  using assms(4,3) step
proof (induction hi rule: dec_induct)
  case base
  show ?case by simp
next
  case (step n)
  have "fold step [lo ..< n] (partial_row v N b lo) = partial_row v N b n"
    using step by simp
  moreover have "step n (partial_row v N b n) = partial_row v N b (Suc n)"
    using step.prems(2)[of n] step.hyps step.prems(1) assms(2) partial_row_step[of b n N v]
    by simp
  ultimately show ?case using step.hyps by simp
qed


lemma partial_row_full:
  assumes "\<And>j. j < N \<Longrightarrow> \<not> (b \<le> j \<and> j < k) \<Longrightarrow> v j = FLT_MAX"
  shows "partial_row v N b k = map v [0 ..< N]"
  by (rule nth_equalityI) (auto simp: partial_row_nth assms)

lemma dtw_cell_eq:
  "dtw_cell g ideal i dtw_prev j dtw_curr =
     dtw_curr[j := (let best = (if j > 0
                                then min (min (min FLT_MAX (dtw_prev ! j)) (dtw_curr ! (j - 1)))
                                       (dtw_prev ! (j - 1))
                                else min FLT_MAX (dtw_prev ! j))
                    in if best < FLT_MAX then path_cost g ideal i j + best else FLT_MAX)]"
  by (auto simp: dtw_cell_def Let_def min_def path_cost_def)

lemma dtw_first_row_matrix:
  assumes "0 \<le> W" "0 < N"
  shows "dtw_first_row g ideal W N = map (dtw_matrix (path_cost g ideal) W N 0) [0 ..< N]"
proof -
  let ?M = "dtw_matrix (path_cost g ideal) W N"
  let ?jm = "nat (min W (int N - 1))"
  let ?step = "\<lambda>j dtw_prev.
             if dtw_prev ! (j - 1) < FLT_MAX
             then dtw_prev[j := dtw_prev ! (j - 1) + pointDistance (g ! 0) (ideal ! j)]
             else dtw_prev"
  have b00: "in_band W N 0 0" using assms by (simp add: in_band_def)
  have init: "(replicate N FLT_MAX)[0 := pointDistance (g ! 0) (ideal ! 0)] = partial_row (?M 0) N 0 1"
    using assms b00
    by (intro nth_equalityI) (auto simp: partial_row_nth nth_list_update path_cost_def)
  have step: "?step j (partial_row (?M 0) N 0 j) = (partial_row (?M 0) N 0 j)[j := ?M 0 j]"
    if lo: "1 \<le> j" and hi: "j < Suc ?jm" for j
  proof -
    obtain j' where j: "j = Suc j'" using lo by (cases j) auto
    have jN: "j < N" and jW: "int j \<le> W" using hi assms by auto
    then have band: "in_band W N 0 j" using assms by (simp add: in_band_def)
    have prev: "partial_row (?M 0) N 0 j ! (j - 1) = ?M 0 j'"
      using jN by (simp add: partial_row_nth j)
    have cur: "partial_row (?M 0) N 0 j ! j = FLT_MAX"
      using jN by (simp add: partial_row_nth)
    show ?thesis
    proof (cases "?M 0 j' < FLT_MAX")
      case True
      then show ?thesis using band prev by (simp add: j path_cost_def)
    next
      case False
      then have "?M 0 j = FLT_MAX" by (simp add: j)
      then show ?thesis using False prev cur
        by (metis list_update_id)
    qed
  qed
  have "fold ?step [1 ..< Suc ?jm] (partial_row (?M 0) N 0 1) = partial_row (?M 0) N 0 (Suc ?jm)"
    by (rule fill_fold) (use step assms in auto)
  moreover have "partial_row (?M 0) N 0 (Suc ?jm) = map (?M 0) [0 ..< N]"
  proof (rule partial_row_full)
    fix j assume "j < N" "\<not> (0 \<le> j \<and> j < Suc ?jm)"
    then have "\<not> in_band W N 0 j" by (auto simp: in_band_def)
    then show "?M 0 j = FLT_MAX" by (rule dtw_matrix_out)
  qed
  ultimately show ?thesis by (simp add: dtw_first_row_def init)
qed

lemma dtw_row_matrix:
  assumes "0 \<le> W" "i < N" "i = Suc i'"
  shows "dtw_row g ideal W N i (map (dtw_matrix (path_cost g ideal) W N i') [0 ..< N])
           = map (dtw_matrix (path_cost g ideal) W N i) [0 ..< N]"
proof -
  let ?M = "dtw_matrix (path_cost g ideal) W N"
  let ?prev = "map (?M i') [0 ..< N]"
  let ?jMin = "nat (max 0 (int i - W))"
  let ?jMax = "nat (min (int N - 1) (int i + W))"
  have step: "dtw_cell g ideal i ?prev j (partial_row (?M i) N ?jMin j)
                = (partial_row (?M i) N ?jMin j)[j := ?M i j]"
    if "?jMin \<le> j" "j < Suc ?jMax" for j
  proof -
    have jN: "j < N" using that(2) assms by auto
    have band: "in_band W N i j" using that assms by (auto simp: in_band_def)
    have p: "?prev ! j = ?M i' j" using jN by simp
    show ?thesis
    proof (cases j)
      case 0
      then show ?thesis using band p by (simp add: dtw_cell_eq assms(3) Let_def)
    next
      case (Suc j')
      have j'N: "j' < N" using jN Suc by simp
      have q: "partial_row (?M i) N ?jMin j ! (j - 1) = ?M i j'"
      proof (cases "?jMin \<le> j'")
        case True
        then show ?thesis using j'N by (simp add: partial_row_nth Suc)
      next
        case False
        then have "\<not> in_band W N i j'" by (auto simp: in_band_def)
        then have "?M i j' = FLT_MAX" by (rule dtw_matrix_out)
        then show ?thesis using False j'N by (simp add: partial_row_nth Suc)
      qed
      have r: "?prev ! (j - 1) = ?M i' j'" using j'N by (simp add: Suc)
      have "?M i (Suc j') =
              (let best = min (min (min FLT_MAX (?M i' (Suc j'))) (?M i j')) (?M i' j')
               in if best < FLT_MAX then path_cost g ideal i (Suc j') + best else FLT_MAX)"
        using band by (simp add: assms(3) Suc Let_def)
      then show ?thesis using p q r by (simp add: dtw_cell_eq Suc)
    qed
  qed
  have "fold (dtw_cell g ideal i ?prev) [?jMin ..< Suc ?jMax] (partial_row (?M i) N ?jMin ?jMin)
          = partial_row (?M i) N ?jMin (Suc ?jMax)"
    by (rule fill_fold) (use step assms in auto)
  moreover have "partial_row (?M i) N ?jMin (Suc ?jMax) = map (?M i) [0 ..< N]"
  proof (rule partial_row_full)
    fix j assume "j < N" "\<not> (?jMin \<le> j \<and> j < Suc ?jMax)"
    then have "\<not> in_band W N i j" by (auto simp: in_band_def)
    then show "?M i j = FLT_MAX" by (rule dtw_matrix_out)
  qed
  ultimately show ?thesis by (simp add: dtw_row_def Let_def partial_row_empty)
qed

lemma dtw_rows_matrix:
  assumes "0 \<le> W" "1 \<le> n" "n \<le> N"
  shows "fold (dtw_row g ideal W N) [1 ..< n] (dtw_first_row g ideal W N)
           = map (dtw_matrix (path_cost g ideal) W N (n - 1)) [0 ..< N]"
  using assms(2,3)
proof (induction n rule: dec_induct)
  case base
  show ?case using assms by (simp add: dtw_first_row_matrix)
next
  case (step n)
  obtain n' where n: "n = Suc n'" using step.hyps(1) by (cases n) auto
  have "fold (dtw_row g ideal W N) [1 ..< n] (dtw_first_row g ideal W N)
           = map (dtw_matrix (path_cost g ideal) W N n') [0 ..< N]"
    using step by (simp add: n)
  then show ?case
    using step.hyps step.prems dtw_row_matrix[OF assms(1), of n N n' g ideal]
    by (simp add: n)
qed

lemma bandWidth_pos: "1 \<le> bandWidth s N"
  by (simp add: bandWidth_def Let_def)

lemma computeDTWDistance_matrix:
  "computeDTWDistance s a b =
     (if length (path_points a) \<noteq> 64 \<or> length (path_points b) \<noteq> 64 then FLT_MAX
      else
        let raw = dtw_matrix (path_cost (path_points a) (path_points b)) (bandWidth s 64) 64 63 63
        in if raw \<ge> FLT_MAX then FLT_MAX else raw / 64)"
proof -
  have W: "0 \<le> bandWidth s 64" using bandWidth_pos[of s 64] by simp
  have "fold (dtw_row (path_points a) (path_points b) (bandWidth s 64) 64) [1 ..< 64]
          (dtw_first_row (path_points a) (path_points b) (bandWidth s 64) 64)
        = map (dtw_matrix (path_cost (path_points a) (path_points b)) (bandWidth s 64) 64 (64 - 1))
            [0 ..< 64]"
    by (rule dtw_rows_matrix[OF W]) simp_all
  then show ?thesis
    by (simp add: computeDTWDistance_def RESAMPLE_COUNT_def Let_def del: upt_Suc)
qed

lemma path_cost_swap: "(\<lambda>i j. path_cost g ideal j i) = path_cost ideal g"
  by (intro ext) (simp add: path_cost_def pointDistance_sym)

text \<open>
  C9. The DTW distance is symmetric: \<^const>\<open>computeDTWDistance\<close> gives the same
  value for \<open>(a, b)\<close> and \<open>(b, a)\<close>, hence within 0.0001, for all paths
  (two 64-point paths in particular; with another length both orders give
  \<^const>\<open>FLT_MAX\<close>). The two rolling rows compute the band of the full matrix
  (\<open>computeDTWDistance_matrix\<close>), whose recurrence, band and border rule are
  symmetric under transposition (\<open>dtw_matrix_sym\<close>).
\<close>

theorem computeDTWDistance_symmetric:
  "computeDTWDistance s a b = computeDTWDistance s b a
   \<and> \<bar>computeDTWDistance s a b - computeDTWDistance s b a\<bar> \<le> 0.0001"
proof -
  have "dtw_matrix (path_cost (path_points a) (path_points b)) (bandWidth s 64) 64 63 63
      = dtw_matrix (path_cost (path_points b) (path_points a)) (bandWidth s 64) 64 63 63"
    using dtw_matrix_sym[of "path_cost (path_points a) (path_points b)" "bandWidth s 64" 64 63 63]
    by (simp add: path_cost_swap)
  then have "computeDTWDistance s a b = computeDTWDistance s b a"
    by (auto simp: computeDTWDistance_matrix)
  then show ?thesis by simp
qed

lemma computeDTWDistance_nonneg: "0 \<le> computeDTWDistance s a b"
proof -
  have "0 \<le> dtw_matrix (path_cost (path_points a) (path_points b)) (bandWidth s 64) 64 63 63"
    by (rule dtw_matrix_nonneg) (simp add: path_cost_def pointDistance_nonneg)
  then show ?thesis using FLT_MAX_pos by (simp add: computeDTWDistance_matrix Let_def)
qed

theorem computeDTWDistance_symmetric_witness:
  "computeDTWDistance \<lparr>scorer_config = default_config\<rparr>
       (makeLinePath 0.0 0.1 1.0 0.9) (makeLinePath 0.1 0.5 0.9 0.2)
     = computeDTWDistance \<lparr>scorer_config = default_config\<rparr>
         (makeLinePath 0.1 0.5 0.9 0.2) (makeLinePath 0.0 0.1 1.0 0.9)
   \<and> \<bar>computeDTWDistance \<lparr>scorer_config = default_config\<rparr>
         (makeLinePath 0.0 0.1 1.0 0.9) (makeLinePath 0.1 0.5 0.9 0.2)
       - computeDTWDistance \<lparr>scorer_config = default_config\<rparr>
           (makeLinePath 0.1 0.5 0.9 0.2) (makeLinePath 0.0 0.1 1.0 0.9)\<bar> \<le> 0.0001"
  by (rule computeDTWDistance_symmetric)

lemma score_loop_nonneg:
  "\<forall>x \<in> set acc. 0 \<le> snd x \<Longrightarrow> \<forall>x \<in> set (fst (score_loop s np es gen acc)). 0 \<le> snd x"
proof (induction es arbitrary: gen acc)
  case Nil
  then show ?case by simp
next
  case (Cons en es)
  obtain ideal gen' where g: "getIdealPath (entry_word en) gen = (ideal, gen')"
    by (cases "getIdealPath (entry_word en) gen")
  show ?case
  proof (cases "isValid ideal")
    case True
    have "\<forall>x \<in> set (acc @ [(en, computeDTWDistance s np ideal)]). 0 \<le> snd x"
      using Cons.prems computeDTWDistance_nonneg by auto
    from Cons.IH[OF this, of gen'] True g show ?thesis by simp
  next
    case False
    from Cons.IH[OF Cons.prems, of gen'] False g show ?thesis by simp
  qed
qed

section \<open>Nearest key: evaluation by squared distances\<close>

lemma findNearestKey_loop_sq:
  "0 \<le> b \<Longrightarrow> findNearestKey_loop ks i x y bi (sqrt b) = findNearestKey_sq_loop ks i x y bi b"
proof (induction ks arbitrary: i bi b)
  case Nil
  show ?case by simp
next
  case (Cons key ks)
  have nn: "0 \<le> (centerX key - x) * (centerX key - x) + (centerY key - y) * (centerY key - y)"
    by simp
  show ?case
    using Cons.IH[OF Cons.prems] Cons.IH[OF nn]
    by (simp add: Let_def)
qed

lemma FLT_MAX_sqrt: "FLT_MAX = sqrt (FLT_MAX * FLT_MAX)"
  by (simp add: FLT_MAX_def)

lemma findNearestKey_sq:
  "findNearestKey layout x y = findNearestKey_sq_loop (keys layout) 0 x y (-1) (FLT_MAX * FLT_MAX)"
proof -
  have "findNearestKey layout x y = findNearestKey_loop (keys layout) 0 x y (-1) FLT_MAX"
    by (simp add: findNearestKey_def)
  also have "\<dots> = findNearestKey_loop (keys layout) 0 x y (-1) (sqrt (FLT_MAX * FLT_MAX))"
    by (rule arg_cong[OF FLT_MAX_sqrt])
  also have "\<dots> = findNearestKey_sq_loop (keys layout) 0 x y (-1) (FLT_MAX * FLT_MAX)"
    by (rule findNearestKey_loop_sq) simp
  finally show ?thesis .
qed


section \<open>The word-length estimator\<close>

lemma nearest_keys_nonneg: "k \<in> set (nearest_keys layout pts) \<Longrightarrow> 0 \<le> k"
  by (simp add: nearest_keys_def)

lemma nearest_keys_Cons:
  "nearest_keys layout (pt # pts) =
     (if findNearestKey layout (gp_x pt) (gp_y pt) \<ge> 0
      then findNearestKey layout (gp_x pt) (gp_y pt) # nearest_keys layout pts
      else nearest_keys layout pts)"
  by (simp add: nearest_keys_def)

lemma nearest_keys_append:
  "nearest_keys layout (ps @ qs) = nearest_keys layout ps @ nearest_keys layout qs"
  by (simp add: nearest_keys_def)

lemma transitions_loop_runs:
  "transitions_loop layout pts prevKey tr
     = tr + int (length (remdups_adj (prevKey # nearest_keys layout pts))) - 1"
proof (induction pts arbitrary: prevKey tr)
  case Nil
  show ?case by (simp add: nearest_keys_def)
next
  case (Cons pt pts)
  show ?case by (simp add: Let_def Cons.IH nearest_keys_Cons)
qed

lemma remdups_adj_minus_one:
  assumes "\<And>k. k \<in> set ks \<Longrightarrow> (0::int) \<le> k"
  shows "length (remdups_adj ((-1) # ks)) = Suc (length (remdups_adj ks))"
proof (cases ks)
  case Nil
  then show ?thesis by simp
next
  case (Cons k ks')
  then have "0 \<le> k" using assms by simp
  then show ?thesis using Cons by simp
qed

lemma estimate_runs:
  "estimateWordLengthByKeyTransitions e rawPath
     = max 1 (real (length (remdups_adj (nearest_keys (eng_layout e) (raw_points rawPath)))))"
proof (cases "length (raw_points rawPath) < 2")
  case True
  have "length (remdups_adj (nearest_keys (eng_layout e) (raw_points rawPath)))
          \<le> length (nearest_keys (eng_layout e) (raw_points rawPath))"
    by (rule remdups_adj_length)
  also have "\<dots> \<le> length (raw_points rawPath)"
    by (simp add: nearest_keys_def)
  finally have "length (remdups_adj (nearest_keys (eng_layout e) (raw_points rawPath))) \<le> 1"
    using True by simp
  then show ?thesis using True by (simp add: estimateWordLengthByKeyTransitions_def max_def)
next
  case False
  have "transitions_loop (eng_layout e) (raw_points rawPath) (-1) 0
      = int (length (remdups_adj (nearest_keys (eng_layout e) (raw_points rawPath))))"
    using remdups_adj_minus_one[of "nearest_keys (eng_layout e) (raw_points rawPath)"]
      nearest_keys_nonneg[of _ "eng_layout e" "raw_points rawPath"]
    by (simp add: transitions_loop_runs)
  then show ?thesis using False by (simp add: estimateWordLengthByKeyTransitions_def)
qed

lemma runs_le_Cons: "length (remdups_adj xs) \<le> length (remdups_adj (y # xs))"
  by (cases xs) auto

lemma runs_Cons_le: "length (remdups_adj (p # xs)) \<le> Suc (length (remdups_adj xs))"
  by (cases xs) auto

lemma runs_subseq_after:
  "subseq xs ys \<Longrightarrow> length (remdups_adj (p # xs)) \<le> length (remdups_adj (p # ys))"
proof (induction arbitrary: p rule: list_emb.induct)
  case (list_emb_Nil ys)
  show ?case by (cases ys) auto
next
  case (list_emb_Cons xs ys y)
  show ?case
  proof (cases "y = p")
    case True
    then show ?thesis using list_emb_Cons.IH[of p] by simp
  next
    case False
    have "length (remdups_adj (p # xs)) \<le> Suc (length (remdups_adj xs))" by (rule runs_Cons_le)
    also have "\<dots> \<le> Suc (length (remdups_adj (y # xs)))" using runs_le_Cons by simp
    also have "\<dots> \<le> Suc (length (remdups_adj (y # ys)))" using list_emb_Cons.IH[of y] by simp
    finally show ?thesis using False by simp
  qed
next
  case (list_emb_Cons2 x y xs ys)
  show ?case
  proof (cases "x = p")
    case True
    then show ?thesis using list_emb_Cons2.hyps(1) list_emb_Cons2.IH[of p] by simp
  next
    case False
    then show ?thesis using list_emb_Cons2.hyps(1) list_emb_Cons2.IH[of x] by simp
  qed
qed

lemma runs_subseq:
  assumes "subseq xs ys" and "\<And>k. k \<in> set ys \<Longrightarrow> (0::int) \<le> k"
  shows "length (remdups_adj xs) \<le> length (remdups_adj ys)"
proof -
  have "0 \<le> k" if "k \<in> set xs" for k
  proof -
    from assms(1) that obtain y where "y \<in> set ys" "k = y" by (rule list_emb_set)
    then show ?thesis using assms(2) by simp
  qed
  then have "length (remdups_adj ((-1) # xs)) = Suc (length (remdups_adj xs))"
    by (rule remdups_adj_minus_one)
  moreover have "length (remdups_adj ((-1) # ys)) = Suc (length (remdups_adj ys))"
    using assms(2) by (rule remdups_adj_minus_one)
  ultimately show ?thesis using runs_subseq_after[OF assms(1), of "-1"] by simp
qed

section \<open>The estimator on clean paths\<close>

lemma char_cp_cases:
  "char_cp c = (if 65 \<le> (of_char c :: int) \<and> (of_char c :: int) \<le> 90
                then of_char c + 32 else of_char c)"
proof -
  have i: "(of_char c :: int) = int (of_char c)" by (simp add: of_nat_of_char)
  have lt: "(of_char c :: nat) < 256" by simp
  show ?thesis
  proof (cases "65 \<le> (of_char c :: nat) \<and> (of_char c :: nat) \<le> 90")
    case True
    then have "(of_char (char_of (of_char c + 32 :: nat)) :: nat) = of_char c + 32"
      by simp
    then have "(of_char (char_of (of_char c + 32 :: nat)) :: int) = int (of_char c) + 32"
      by (metis of_nat_of_char of_nat_add of_nat_numeral)
    then show ?thesis using True i by (simp add: char_cp_def tolower_c_def Let_def)
  next
    case False
    then show ?thesis using i by (auto simp: char_cp_def tolower_c_def Let_def)
  qed
qed

lemma ascii_lower_cp_char: "ascii_lower_cp (of_char c) = ascii_lower_cp (char_cp c)"
  by (simp add: char_cp_cases ascii_lower_cp_def)

lemma word_keys_mapped: "word_keys layout w = mapped_keys layout w"
  by (simp add: word_keys_def mapped_keys_def findKeyByCodePoint_def ascii_lower_cp_char)


lemma segment_points_head:
  assumes "1 \<le> pointsPerSegment"
  shows "\<exists>rest. segment_points pointsPerSegment c0 c1 ts
           = \<lparr>gp_x = fst c0, gp_y = snd c0, gp_timestamp = ts\<rparr> # rest"
proof -
  have "[0 ..< pointsPerSegment] = 0 # [1 ..< pointsPerSegment]"
    using assms by (simp add: upt_conv_Cons)
  then show ?thesis by (simp add: segment_points_def Let_def)
qed

lemma nearest_keys_centre:
  assumes "0 \<le> idx" "centre_snaps layout idx"
  shows "nearest_keys layout
           (\<lparr>gp_x = centerX (keys layout ! nat idx), gp_y = centerY (keys layout ! nat idx),
             gp_timestamp = ts\<rparr> # pts)
         = idx # nearest_keys layout pts"
  using assms by (simp add: nearest_keys_Cons centre_snaps_def)

lemma segments_loop_subseq:
  assumes pps: "1 \<le> pointsPerSegment"
  shows "(\<forall>idx \<in> set idxs. 0 \<le> idx \<and> centre_snaps layout idx) \<Longrightarrow>
         subseq idxs
           (nearest_keys layout
              (segments_loop pointsPerSegment
                 (map (\<lambda>idx. (centerX (keys layout ! nat idx), centerY (keys layout ! nat idx))) idxs)
                 ts))"
proof (induction idxs arbitrary: ts rule: induct_list012)
  case 1
  show ?case by simp
next
  case (2 i)
  then show ?case using nearest_keys_centre[of i layout ts "[]"] by (simp add: nearest_keys_def)
next
  case (3 i0 i1 more)
  let ?c = "\<lambda>idx. (centerX (keys layout ! nat idx), centerY (keys layout ! nat idx))"
  obtain rest where seg: "segment_points pointsPerSegment (?c i0) (?c i1) ts
      = \<lparr>gp_x = centerX (keys layout ! nat i0), gp_y = centerY (keys layout ! nat i0),
          gp_timestamp = ts\<rparr> # rest"
    using segment_points_head[OF pps, of "?c i0" "?c i1" ts] by auto
  have tail: "subseq (i1 # more)
      (nearest_keys layout (segments_loop pointsPerSegment (map ?c (i1 # more))
         (ts + 10 * int pointsPerSegment)))"
    using 3 by simp
  have "nearest_keys layout (segments_loop pointsPerSegment (map ?c (i0 # i1 # more)) ts)
      = i0 # (nearest_keys layout rest
              @ nearest_keys layout (segments_loop pointsPerSegment (map ?c (i1 # more))
                  (ts + 10 * int pointsPerSegment)))"
    using 3(3) nearest_keys_centre[of i0 layout ts]
    by (simp add: seg nearest_keys_append)
  moreover have "subseq (i0 # i1 # more)
      (i0 # (nearest_keys layout rest
              @ nearest_keys layout (segments_loop pointsPerSegment (map ?c (i1 # more))
                  (ts + 10 * int pointsPerSegment))))"
    using tail by (simp add: list_emb_append2)
  ultimately show ?case by simp
qed

lemma word_keys_nonneg: "idx \<in> set (word_keys layout w) \<Longrightarrow> 0 \<le> idx"
  by (simp add: word_keys_def)

lemma makePathForWord_subseq:
  assumes "1 \<le> pointsPerSegment"
    and "\<forall>idx \<in> set (word_keys layout w). centre_snaps layout idx"
  shows "subseq (word_keys layout w)
           (nearest_keys layout (makePathForWord layout w pointsPerSegment))"
proof (cases "w = [] \<or> word_keys layout w = []")
  case True
  then show ?thesis by (auto simp: word_keys_def)
next
  case False
  have "\<forall>idx \<in> set (word_keys layout w). 0 \<le> idx \<and> centre_snaps layout idx"
    using assms(2) word_keys_nonneg by blast
  from segments_loop_subseq[OF assms(1) this, of 0] False
  show ?thesis by (simp add: makePathForWord_def word_centers_def Let_def)
qed

text \<open>
  What the estimator does compute: the number of runs of equal consecutive nearest keys
  along the raw points (a change of key counts, a repeated key does not), and at least 1.
  On the clean path of a word, with at least one point per segment and every key of the
  word nearest to its own centre, that number is never below the number of distinct
  consecutive keys of the word.
\<close>

theorem estimate_counts_key_runs:
  assumes "1 \<le> pointsPerSegment"
    and "\<forall>idx \<in> set (word_keys (eng_layout e) w). centre_snaps (eng_layout e) idx"
  shows "estimateWordLengthByKeyTransitions e
             \<lparr>raw_points = makePathForWord (eng_layout e) w pointsPerSegment\<rparr>
           = max 1 (real (length (remdups_adj
               (nearest_keys (eng_layout e) (makePathForWord (eng_layout e) w pointsPerSegment)))))
     \<and> real (length (distinct_keys (eng_layout e) w))
           \<le> estimateWordLengthByKeyTransitions e
               \<lparr>raw_points = makePathForWord (eng_layout e) w pointsPerSegment\<rparr>"
proof -
  let ?pts = "makePathForWord (eng_layout e) w pointsPerSegment"
  have est: "estimateWordLengthByKeyTransitions e \<lparr>raw_points = ?pts\<rparr>
      = max 1 (real (length (remdups_adj (nearest_keys (eng_layout e) ?pts))))"
    using estimate_runs[of e "\<lparr>raw_points = ?pts\<rparr>"] by simp
  have "subseq (word_keys (eng_layout e) w) (nearest_keys (eng_layout e) ?pts)"
    by (rule makePathForWord_subseq[OF assms])
  then have "length (remdups_adj (word_keys (eng_layout e) w))
      \<le> length (remdups_adj (nearest_keys (eng_layout e) ?pts))"
    by (rule runs_subseq) (rule nearest_keys_nonneg)
  then have "real (length (distinct_keys (eng_layout e) w))
      \<le> real (length (remdups_adj (nearest_keys (eng_layout e) ?pts)))"
    by (simp add: distinct_keys_def word_keys_mapped)
  then show ?thesis using est by simp
qed

text \<open>The word \<open>hello\<close> on the test layout, eight points per segment.\<close>

lemma hello_word_keys: "word_keys makeQwertyLayout ''hello'' = [15, 2, 18, 18, 8]"
  by code_simp

lemma hello_centres:
  "centre_snaps makeQwertyLayout 15 \<and> centre_snaps makeQwertyLayout 2
   \<and> centre_snaps makeQwertyLayout 18 \<and> centre_snaps makeQwertyLayout 8"
  unfolding centre_snaps_def findNearestKey_sq by code_simp

lemma hello_nearest_keys:
  "nearest_keys makeQwertyLayout (makePathForWord makeQwertyLayout ''hello'' 8)
     = [15, 15, 14, 14, 4, 3, 3, 2, 2, 3, 4, 4, 5, 16, 16, 17,
        18, 18, 18, 18, 18, 18, 18, 18, 18, 18, 18, 18, 8, 8, 8, 8, 8]"
  unfolding nearest_keys_def findNearestKey_sq by code_simp

lemma qwerty_engine_layout: "eng_layout qwerty_engine = makeQwertyLayout"
  by (simp add: qwerty_engine_def)

theorem estimate_counts_key_runs_witness:
  "estimateWordLengthByKeyTransitions qwerty_engine
       \<lparr>raw_points = makePathForWord makeQwertyLayout ''hello'' 8\<rparr>
     = max 1 (real (length (remdups_adj
         (nearest_keys makeQwertyLayout (makePathForWord makeQwertyLayout ''hello'' 8)))))
   \<and> real (length (distinct_keys makeQwertyLayout ''hello''))
       \<le> estimateWordLengthByKeyTransitions qwerty_engine
           \<lparr>raw_points = makePathForWord makeQwertyLayout ''hello'' 8\<rparr>"
  using estimate_counts_key_runs[of 8 qwerty_engine "''hello''"] hello_centres
  by (simp add: qwerty_engine_layout hello_word_keys)

text \<open>
  C8 (the code at the failing input). The word \<open>hello\<close> visits 4 distinct
  consecutive keys (h, e, l, o). On its clean path, eight points per segment, the
  estimator returns 12, not 4: it also snaps the points between two key centres, and the
  segments from h to e, from e to l and from l to o cross the keys g, t, r, y, j and k.
\<close>

theorem estimate_overcounts_hello:
  "length (distinct_keys makeQwertyLayout ''hello'') = 4
   \<and> estimateWordLengthByKeyTransitions qwerty_engine (clean_path ''hello'') = 12"
proof -
  have "distinct_keys makeQwertyLayout ''hello'' = [15, 2, 18, 8]"
    by (simp add: distinct_keys_def word_keys_mapped[symmetric] hello_word_keys)
  moreover have "estimateWordLengthByKeyTransitions qwerty_engine (clean_path ''hello'') = 12"
    by (simp add: estimate_runs clean_path_def qwerty_engine_layout hello_nearest_keys)
  ultimately show ?thesis by simp
qed

section \<open>Normalised paths have 64 points\<close>

lemma resample_from_length: "length (resample_from cnt totalLen points) = cnt"
  by (auto simp: resample_from_def Let_def split: prod.splits)

lemma resample_length:
  "2 \<le> length points \<Longrightarrow> length (resample pp points) = pp_resampleCount pp"
  by (simp add: resample_def Let_def resample_from_length)

lemma resamplePoints_length:
  "2 \<le> length points \<Longrightarrow> 2 \<le> cnt \<Longrightarrow> length (resamplePoints points cnt) = cnt"
  by (simp add: resamplePoints_def Let_def resample_from_length)

lemma normalizeBoundingBox_length:
  "length (path_points (normalizeBoundingBox points len)) = length points"
  by (simp add: normalizeBoundingBox_def Let_def empty_path_def)

lemma deduplicate_loop_nonempty: "result \<noteq> [] \<Longrightarrow> deduplicate_loop m mids result \<noteq> []"
  by (induction mids arbitrary: result) (simp_all add: Let_def)

lemma deduplicate_length: "2 \<le> length points \<Longrightarrow> 2 \<le> length (deduplicate pp points)"
proof -
  assume "2 \<le> length points"
  have "deduplicate_loop (pp_minPointDistance pp) (butlast (tl points)) [hd points] \<noteq> []"
    by (rule deduplicate_loop_nonempty) simp
  then have "1 \<le> length (deduplicate_loop (pp_minPointDistance pp) (butlast (tl points)) [hd points])"
    by (simp add: Suc_le_eq)
  then show ?thesis using \<open>2 \<le> length points\<close> by (simp add: deduplicate_def)
qed

lemma normalize_length:
  "length (path_points (normalize pp raw layout))
     = (if isEmpty raw then 0 else pp_resampleCount pp)"
proof (cases "isEmpty raw")
  case True
  then show ?thesis by (simp add: normalize_def empty_path_def)
next
  case False
  then have d: "2 \<le> length (deduplicate pp (raw_points raw))"
    using deduplicate_length[of "raw_points raw" pp] by (simp add: isEmpty_def)
  then show ?thesis
    using False by (simp add: normalize_def Let_def normalizeBoundingBox_length resample_length)
qed

lemma generate_length:
  "length (path_points (generate gen w))
     = (if layoutSet gen \<and> 2 \<le> length (distinct_keys (gen_layout gen) w) then 64 else 0)"
  by (simp add: generate_def Let_def generate_keyPoints_count normalizeBoundingBox_length
      resamplePoints_length RESAMPLE_COUNT_def empty_path_def)

section \<open>A run of recognize on the test fixture\<close>

text \<open>
  The engine of the test fixture and the two-point path from the centre of g to the
  centre of o: the path is normalised to 64 points, its end keys are g and o, the only
  entry from g to o is \<open>go\<close>, it passes the length filter (estimate 2), its ideal
  path is valid, and the result is the one candidate \<open>go\<close>.
\<close>

lemma test_dict_loaded:
  "fst (loadFromMemory buildTestDict new_loader)
   \<and> loaded (snd (loadFromMemory buildTestDict new_loader))
   \<and> map entry_word (entries (snd (loadFromMemory buildTestDict new_loader)))
        = [''the'', ''and'', ''hello'', ''world'', ''help'', ''hero'', ''go'', ''do'', ''a'']
   \<and> maxFrequency (snd (loadFromMemory buildTestDict new_loader)) = 1000000"
  by code_simp

lemma test_dict_go:
  "getEntriesWithStartEnd (snd (loadFromMemory buildTestDict new_loader)) CHR ''g'' CHR ''o''
     = [go_entry]"
  by code_simp

lemma qwerty_valid: "layout_isValid makeQwertyLayout"
  by (simp add: layout_isValid_def makeQwertyLayout_def mkKey_def isCharacterKey_def)

lemma test_engine_fields:
  "initialized test_engine"
  "eng_layout test_engine = makeQwertyLayout"
  "pathProcessor test_engine = new_pathProcessor"
  "dictLoader test_engine = snd (loadFromMemory buildTestDict new_loader)"
  "idealPathGen test_engine = qwerty_generator"
  "eng_config test_engine = default_config"
  "scorer test_engine = \<lparr>scorer_config = default_config\<rparr>"
proof -
  obtain d where l: "loadFromMemory buildTestDict new_loader = (True, d)"
    using test_dict_loaded by (cases "loadFromMemory buildTestDict new_loader") auto
  have te: "test_engine = finish_init makeQwertyLayout (new_engine\<lparr>dictLoader := d\<rparr>)"
    using qwerty_valid l by (simp add: test_engine_def initWithData_def new_engine_def)
  show "initialized test_engine"
    "eng_layout test_engine = makeQwertyLayout"
    "pathProcessor test_engine = new_pathProcessor"
    "dictLoader test_engine = snd (loadFromMemory buildTestDict new_loader)"
    "idealPathGen test_engine = qwerty_generator"
    "eng_config test_engine = default_config"
    "scorer test_engine = \<lparr>scorer_config = default_config\<rparr>"
    using l by (simp_all add: te finish_init_def new_engine_def qwerty_generator_def scorer_configure_def)
qed

lemma normalize_keys:
  assumes "\<not> isEmpty raw"
  shows "startKeyIndex (normalize pp raw layout)
           = findNearestKey layout (gp_x (hd (raw_points raw))) (gp_y (hd (raw_points raw)))"
    and "endKeyIndex (normalize pp raw layout)
           = findNearestKey layout (gp_x (last (raw_points raw))) (gp_y (last (raw_points raw)))"
proof -
  have "2 \<le> length (deduplicate pp (raw_points raw))"
    using assms deduplicate_length[of "raw_points raw" pp] by (simp add: isEmpty_def)
  then show "startKeyIndex (normalize pp raw layout)
           = findNearestKey layout (gp_x (hd (raw_points raw))) (gp_y (hd (raw_points raw)))"
    and "endKeyIndex (normalize pp raw layout)
           = findNearestKey layout (gp_x (last (raw_points raw))) (gp_y (last (raw_points raw)))"
    using assms by (simp_all add: normalize_def Let_def)
qed

lemma go_nearest:
  "findNearestKey makeQwertyLayout 160 80 = 14 \<and> findNearestKey makeQwertyLayout 272 26 = 8"
  unfolding findNearestKey_sq by code_simp

lemma go_chars:
  "keyChar (codePoint (keys makeQwertyLayout ! 14)) = CHR ''g''
   \<and> keyChar (codePoint (keys makeQwertyLayout ! 8)) = CHR ''o''
   \<and> length (keys makeQwertyLayout) = 26"
  by code_simp

lemma go_distinct_keys: "distinct_keys makeQwertyLayout ''go'' = [14, 8]"
  by code_simp

lemma go_lower: "tolower_c CHR ''g'' = CHR ''g'' \<and> tolower_c CHR ''o'' = CHR ''o''"
  by code_simp

lemma insertion_sort_single: "insertion_sort cmp [x] = [x]"
  by (simp add: insertion_sort_def)

lemma std_sort_single: "std_sort cmp [x] = [x]"
  by (simp add: std_sort_def lg.simps introsort_loop.simps S_threshold_def
      final_insertion_sort_def stl_insertion_sort_def insertion_sort_loop.simps)

lemma recognize_go_any:
  "\<exists>c. cand_word c = ''go''
     \<and> (\<forall>srt. fst (recognize srt test_engine go_path 5) = sortAndPrune srt 5 [c])"
proof -
  let ?np = "normalize new_pathProcessor go_path makeQwertyLayout"
  let ?d = "snd (loadFromMemory buildTestDict new_loader)"
  have ne: "\<not> isEmpty go_path" by (simp add: isEmpty_def go_path_def)
  have valid: "isValid ?np"
    using ne by (simp add: isValid_def normalize_length new_pathProcessor_def RESAMPLE_COUNT_def)
  have sk: "startKeyIndex ?np = 14" "endKeyIndex ?np = 8"
    using normalize_keys[OF ne, of new_pathProcessor makeQwertyLayout] go_nearest
    by (simp_all add: go_path_def)
  have se: "startEndChars makeQwertyLayout ?np = (CHR ''g'', CHR ''o'', True)"
    using go_chars by (simp add: startEndChars_def sk Let_def)
  have sel: "selectCandidates ?d CHR ''g'' CHR ''o'' True = [go_entry]"
    by (simp add: selectCandidates_def Let_def test_dict_go)
  have nk: "nearest_keys makeQwertyLayout (raw_points go_path) = [14, 8]"
    using go_nearest by (simp add: nearest_keys_def go_path_def)
  have est: "estimateWordLengthByKeyTransitions test_engine go_path = 2"
    by (simp add: estimate_runs test_engine_fields nk)
  have lf: "lengthFilter 2 (lengthFilterTolerance default_config) [go_entry] = [go_entry]"
    by (simp add: lengthFilter_def Let_def go_entry_def default_config_def
        LENGTH_FILTER_TOLERANCE_def)
  have qg: "layoutSet qwerty_generator" "cache qwerty_generator = []"
    "gen_layout qwerty_generator = makeQwertyLayout"
    by (simp_all add: qwerty_generator_def setLayout_def)
  have gv: "isValid (generate qwerty_generator ''go'')"
    by (simp add: isValid_def generate_length qg go_distinct_keys)
  obtain ideal gen' where gi: "getIdealPath ''go'' qwerty_generator = (ideal, gen')"
    and iv: "isValid ideal"
    using gv by (simp add: getIdealPath_def Let_def qg go_lower)
  let ?sc = "[(go_entry, computeDTWDistance \<lparr>scorer_config = default_config\<rparr> ?np ideal)]"
  let ?c = "makeCandidate (maxDTW_of default_config ?sc) (effectiveAlpha_of default_config ?sc)
              (getMaxFrequency ?d) (hd ?sc)"
  have sl: "score_loop \<lparr>scorer_config = default_config\<rparr> ?np [go_entry] qwerty_generator []
      = (?sc, gen')"
    using gi iv by (simp add: go_entry_def)
  have r: "fst (recognize srt test_engine go_path 5) = sortAndPrune srt 5 [?c]" for srt
    using ne valid
    by (simp add: recognize_def test_engine_fields Let_def se sel est lf sl
        MAX_MAX_CANDIDATES_def del: score_loop.simps)
  have w: "cand_word ?c = ''go''"
    by (simp add: makeCandidate_def go_entry_def Let_def)
  show ?thesis using r w by blast
qed

lemma recognize_go:
  "map cand_word (fst (recognize insertion_sort test_engine go_path 5)) = [''go'']"
proof -
  obtain c where c: "cand_word c = ''go''"
    and r: "\<And>srt. fst (recognize srt test_engine go_path 5) = sortAndPrune srt 5 [c]"
    using recognize_go_any by blast
  show ?thesis unfolding r by (simp add: sortAndPrune_def insertion_sort_single c)
qed

text \<open>With the sort the program runs the result is the same.\<close>

lemma recognize_go_std:
  "fst (recognize std_sort test_engine go_path 5)
     = fst (recognize insertion_sort test_engine go_path 5)"
proof -
  obtain c where r: "\<And>srt. fst (recognize srt test_engine go_path 5) = sortAndPrune srt 5 [c]"
    using recognize_go_any by blast
  show ?thesis unfolding r by (simp add: sortAndPrune_def insertion_sort_single std_sort_single)
qed

text \<open>The two theorems about the output of recognize, on this run.\<close>

theorem recognize_length_and_order_witness:
  "int (length (fst (recognize insertion_sort test_engine go_path 5))) \<le> max 1 (min 5 20)
   \<and> sorted_wrt (\<lambda>a b. confidence a \<ge> confidence b)
        (fst (recognize insertion_sort test_engine go_path 5))
   \<and> map cand_word (fst (recognize insertion_sort test_engine go_path 5)) = [''go'']
   \<and> fst (recognize std_sort test_engine go_path 5)
       = fst (recognize insertion_sort test_engine go_path 5)"
proof -
  have "int (length (fst (recognize insertion_sort test_engine go_path 5))) \<le> max 1 (min 5 20)
   \<and> sorted_wrt (\<lambda>a b. confidence a \<ge> confidence b)
        (fst (recognize insertion_sort test_engine go_path 5))"
    by (rule recognize_length_and_order[OF insertion_sort_contract])
  then show ?thesis using recognize_go recognize_go_std by blast
qed

theorem recognize_candidates_in_range_witness:
  "list_all candidate_in_range (fst (recognize insertion_sort test_engine go_path 5))
   \<and> map cand_word (fst (recognize insertion_sort test_engine go_path 5)) = [''go'']
   \<and> fst (recognize std_sort test_engine go_path 5)
       = fst (recognize insertion_sort test_engine go_path 5)"
  using recognize_candidates_in_range[OF insertion_sort_contract test_engine_state, of go_path 5]
    recognize_go recognize_go_std
  by (simp add: list_all_iff)

section \<open>Seventeen candidates of equal confidence\<close>

text \<open>
  On seventeen elements none of which is less than another, the library's sort runs one
  round of introsort: the median-of-three step swaps the first element with the ninth,
  the partition then swaps the second with the last, the third with the last but one,
  and so on up to the ninth and tenth; the insertion sort that follows moves nothing.
\<close>

lemma std_sort_17_ties:
  assumes "\<And>a b. \<not> cmp (f a) (f b)"
  shows "std_sort cmp (map f [x0, x1, x2, x3, x4, x5, x6, x7, x8, x9, x10, x11, x12, x13, x14, x15, x16])
     = map f [x8, x16, x15, x14, x13, x12, x11, x10, x9, x0, x7, x6, x5, x4, x3, x2, x1]"
  using assms
  by (simp add: std_sort_def lg.simps introsort_loop.simps S_threshold_def
      unguarded_partition_pivot_def move_median_to_first_def iter_swap_def
      unguarded_partition.simps scan_up.simps scan_down.simps Let_def
      final_insertion_sort_def stl_insertion_sort_def insertion_sort_loop.simps
      unguarded_insertion_sort.simps unguarded_linear_insert_def linear_insert_loop.simps)


text \<open>
  The engine whose dictionary holds the seventeen words of \<^const>\<open>tie_words\<close>, and
  the path from g to o: every word is selected (first letter g, last letter o), passes
  the length filter (estimate 2, tolerance 3, lengths 2 to 5), and has the ideal path of
  \<open>go\<close>, hence the same distance; frequencies are equal, so the seventeen candidates have
  one confidence.
\<close>

lemma tie_dict_loaded:
  "fst (loadFromMemory tie_dict new_loader)
   \<and> loaded (snd (loadFromMemory tie_dict new_loader))
   \<and> entries (snd (loadFromMemory tie_dict new_loader)) = tie_entries
   \<and> maxFrequency (snd (loadFromMemory tie_dict new_loader)) = 1000"
  by code_simp

lemma tie_dict_go:
  "getEntriesWithStartEnd (snd (loadFromMemory tie_dict new_loader)) CHR ''g'' CHR ''o''
     = tie_entries"
  by code_simp

lemma tie_words_lower: "list_all (\<lambda>w. map tolower_c w = w) tie_words"
  by code_simp

lemma tie_words_keys:
  "list_all (\<lambda>w. generate_keyPoints makeQwertyLayout w (-1) 0 []
                    = generate_keyPoints makeQwertyLayout ''go'' (-1) 0 []
                 \<and> find (\<lambda>cp. findKeyByCodePoint makeQwertyLayout cp \<ge> 0) (map char_cp w)
                    = find (\<lambda>cp. findKeyByCodePoint makeQwertyLayout cp \<ge> 0) (map char_cp ''go'')
                 \<and> find (\<lambda>cp. findKeyByCodePoint makeQwertyLayout cp \<ge> 0) (map char_cp (rev w))
                    = find (\<lambda>cp. findKeyByCodePoint makeQwertyLayout cp \<ge> 0) (map char_cp (rev ''go'')))
     tie_words"
  by code_simp

lemma tie_lengthFilter:
  "lengthFilter 2 (lengthFilterTolerance default_config) tie_entries = tie_entries"
  by code_simp

lemma generate_cong:
  "layoutSet g1 = layoutSet g2 \<Longrightarrow> gen_layout g1 = gen_layout g2 \<Longrightarrow> generate g1 w = generate g2 w"
  by (simp add: generate_def)

lemma getIdealPath_same:
  assumes "layoutSet gen" and "generate gen (map tolower_c w) = P"
    and "\<And>k p. map_of (cache gen) k = Some p \<Longrightarrow> p = P"
  shows "fst (getIdealPath w gen) = P"
    and "layoutSet (snd (getIdealPath w gen))"
    and "gen_layout (snd (getIdealPath w gen)) = gen_layout gen"
    and "\<And>k p. map_of (cache (snd (getIdealPath w gen))) k = Some p \<Longrightarrow> p = P"
  using assms
  by (auto simp: getIdealPath_def Let_def update_conv' split: option.splits if_splits)

lemma score_loop_same_path:
  assumes "layoutSet gen"
    and "\<And>e. e \<in> set es \<Longrightarrow> generate gen (map tolower_c (entry_word e)) = P"
    and "isValid P"
    and "\<And>k p. map_of (cache gen) k = Some p \<Longrightarrow> p = P"
  shows "fst (score_loop s np es gen acc) = acc @ map (\<lambda>e. (e, computeDTWDistance s np P)) es"
  using assms
proof (induction es arbitrary: gen acc)
  case Nil
  then show ?case by simp
next
  case (Cons e es)
  obtain ideal gen' where g: "getIdealPath (entry_word e) gen = (ideal, gen')"
    by (cases "getIdealPath (entry_word e) gen")
  have ge: "generate gen (map tolower_c (entry_word e)) = P" using Cons.prems(2) by simp
  have i: "ideal = P"
    using getIdealPath_same(1)[OF Cons.prems(1) ge Cons.prems(4)] g by simp
  have ls: "layoutSet gen'"
    using getIdealPath_same(2)[OF Cons.prems(1) ge Cons.prems(4)] g by simp
  have gl: "gen_layout gen' = gen_layout gen"
    using getIdealPath_same(3)[OF Cons.prems(1) ge Cons.prems(4)] g by simp
  have inv: "\<And>k p. map_of (cache gen') k = Some p \<Longrightarrow> p = P"
    using getIdealPath_same(4)[OF Cons.prems(1) ge Cons.prems(4)] g by simp
  have gg: "\<And>e'. e' \<in> set es \<Longrightarrow> generate gen' (map tolower_c (entry_word e')) = P"
  proof -
    fix e' assume "e' \<in> set es"
    then have "generate gen (map tolower_c (entry_word e')) = P" using Cons.prems(2) by simp
    moreover have "generate gen' (map tolower_c (entry_word e')) = generate gen (map tolower_c (entry_word e'))"
      by (rule generate_cong) (simp_all add: ls gl Cons.prems(1))
    ultimately show "generate gen' (map tolower_c (entry_word e')) = P" by simp
  qed
  have IH: "fst (score_loop s np es gen' (acc @ [(e, computeDTWDistance s np P)]))
      = (acc @ [(e, computeDTWDistance s np P)]) @ map (\<lambda>e. (e, computeDTWDistance s np P)) es"
    by (rule Cons.IH[OF ls gg Cons.prems(3) inv])
  show ?case using g i Cons.prems(3) IH by simp
qed

lemma tie_generate:
  assumes "w \<in> set tie_words"
  shows "generate qwerty_generator (map tolower_c w) = generate qwerty_generator ''go''"
proof -
  have l: "map tolower_c w = w" using assms tie_words_lower by (simp add: list_all_iff)
  have k: "generate_keyPoints makeQwertyLayout w (-1) 0 []
                    = generate_keyPoints makeQwertyLayout ''go'' (-1) 0 []
                 \<and> find (\<lambda>cp. findKeyByCodePoint makeQwertyLayout cp \<ge> 0) (map char_cp w)
                    = find (\<lambda>cp. findKeyByCodePoint makeQwertyLayout cp \<ge> 0) (map char_cp ''go'')
                 \<and> find (\<lambda>cp. findKeyByCodePoint makeQwertyLayout cp \<ge> 0) (map char_cp (rev w))
                    = find (\<lambda>cp. findKeyByCodePoint makeQwertyLayout cp \<ge> 0) (map char_cp (rev ''go''))"
    using assms tie_words_keys by (simp add: list_all_iff)
  have "generate qwerty_generator w = generate qwerty_generator ''go''"
    unfolding generate_def using k by (simp add: qg_set Let_def)
  then show ?thesis using l by simp
qed

lemma tie_engine_fields:
  "initialized tie_engine"
  "eng_layout tie_engine = makeQwertyLayout"
  "pathProcessor tie_engine = new_pathProcessor"
  "dictLoader tie_engine = snd (loadFromMemory tie_dict new_loader)"
  "idealPathGen tie_engine = qwerty_generator"
  "eng_config tie_engine = default_config"
  "scorer tie_engine = \<lparr>scorer_config = default_config\<rparr>"
proof -
  obtain d where l: "loadFromMemory tie_dict new_loader = (True, d)"
    using tie_dict_loaded by (cases "loadFromMemory tie_dict new_loader") auto
  have te: "tie_engine = finish_init makeQwertyLayout (new_engine\<lparr>dictLoader := d\<rparr>)"
    using qwerty_valid l by (simp add: tie_engine_def initWithData_def new_engine_def)
  show "initialized tie_engine"
    "eng_layout tie_engine = makeQwertyLayout"
    "pathProcessor tie_engine = new_pathProcessor"
    "dictLoader tie_engine = snd (loadFromMemory tie_dict new_loader)"
    "idealPathGen tie_engine = qwerty_generator"
    "eng_config tie_engine = default_config"
    "scorer tie_engine = \<lparr>scorer_config = default_config\<rparr>"
    using l by (simp_all add: te finish_init_def new_engine_def qwerty_generator_def scorer_configure_def)
qed

lemma recognize_ties:
  "\<exists>M A d. \<forall>srt. fst (recognize srt tie_engine go_path 20)
     = sortAndPrune srt 20
         (map (\<lambda>w. makeCandidate M A 1000 (\<lparr>entry_word = w, frequency = 1000, entry_flags = 0\<rparr>, d))
            tie_words)"
proof -
  let ?np = "normalize new_pathProcessor go_path makeQwertyLayout"
  let ?d = "snd (loadFromMemory tie_dict new_loader)"
  let ?s = "\<lparr>scorer_config = default_config\<rparr>"
  let ?P = "generate qwerty_generator ''go''"
  let ?dtw = "computeDTWDistance ?s ?np ?P"
  let ?scored = "map (\<lambda>e. (e, ?dtw)) tie_entries"
  let ?M = "maxDTW_of default_config ?scored"
  let ?A = "effectiveAlpha_of default_config ?scored"
  let ?f = "\<lambda>w. makeCandidate ?M ?A 1000 (\<lparr>entry_word = w, frequency = 1000, entry_flags = 0\<rparr>, ?dtw)"
  have ne: "\<not> isEmpty go_path" by (simp add: isEmpty_def go_path_def)
  have valid: "isValid ?np"
    using ne by (simp add: isValid_def normalize_length new_pathProcessor_def RESAMPLE_COUNT_def)
  have sk: "startKeyIndex ?np = 14" "endKeyIndex ?np = 8"
    using normalize_keys[OF ne, of new_pathProcessor makeQwertyLayout] go_nearest
    by (simp_all add: go_path_def)
  have se: "startEndChars makeQwertyLayout ?np = (CHR ''g'', CHR ''o'', True)"
    using go_chars by (simp add: startEndChars_def sk Let_def)
  have tne: "tie_entries \<noteq> []" by (simp add: tie_entries_def tie_words_def)
  have sel: "selectCandidates ?d CHR ''g'' CHR ''o'' True = tie_entries"
    using tne by (simp add: selectCandidates_def Let_def tie_dict_go)
  have nk: "nearest_keys makeQwertyLayout (raw_points go_path) = [14, 8]"
    using go_nearest by (simp add: nearest_keys_def go_path_def)
  have est: "estimateWordLengthByKeyTransitions tie_engine go_path = 2"
    by (simp add: estimate_runs tie_engine_fields nk)
  have qg: "layoutSet qwerty_generator" "cache qwerty_generator = []"
    "gen_layout qwerty_generator = makeQwertyLayout"
    by (simp_all add: qwerty_generator_def setLayout_def)
  have gv: "isValid ?P"
    by (simp add: isValid_def generate_length qg go_distinct_keys)
  have ge: "\<And>e. e \<in> set tie_entries \<Longrightarrow> generate qwerty_generator (map tolower_c (entry_word e)) = ?P"
    using tie_generate by (auto simp: tie_entries_def)
  have sl: "fst (score_loop ?s ?np tie_entries qwerty_generator []) = ?scored"
    using score_loop_same_path[OF qg(1) ge gv, of tie_entries ?s ?np "[]"] by (simp add: qg)
  obtain gen' where sl': "score_loop ?s ?np tie_entries qwerty_generator [] = (?scored, gen')"
    using sl by (cases "score_loop ?s ?np tie_entries qwerty_generator []") simp
  have sne: "?scored \<noteq> []" using tne by simp
  have res: "map (makeCandidate ?M ?A 1000 \<circ> (\<lambda>e. (e, ?dtw))) tie_entries = map ?f tie_words"
    by (simp add: tie_entries_def comp_def)
  have mf: "getMaxFrequency ?d = 1000"
    using tie_dict_loaded by (simp add: getMaxFrequency_def)
  have "fst (recognize srt tie_engine go_path 20) = sortAndPrune srt 20 (map ?f tie_words)" for srt
    using ne valid sne
    by (simp add: recognize_def tie_engine_fields Let_def se sel est tie_lengthFilter sl' mf res
        MAX_MAX_CANDIDATES_def del: score_loop.simps)
  then show ?thesis by blast
qed

text \<open>
  The claim as written (ties keep their scoring order) fails on that run. With the
  identity in place of the sort, \<^const>\<open>recognize\<close> returns the candidates as they
  were scored: in the order of the dictionary. With the sort the program runs it returns
  the same seventeen candidates, all of one confidence, with the ninth first and the
  others reversed around the first: \<open>go\<close> was scored first and comes tenth. The same
  happens in the final step alone on seventeen candidates of confidence 1/2.
\<close>

theorem final_sort_not_stable:
  "map cand_word (fst (recognize (\<lambda>cmp xs. xs) tie_engine go_path 20)) = tie_words
   \<and> distinct tie_words
   \<and> map cand_word (fst (recognize std_sort tie_engine go_path 20))
       = [''g-oo'', ''g--o'', ''g-ooo'', ''gg-oo'', ''ggg-o'', ''goooo'', ''ggooo'', ''gggoo'',
          ''ggggo'', ''go'', ''gg-o'', ''gooo'', ''ggoo'', ''gggo'', ''g-o'', ''goo'', ''ggo'']
   \<and> list_all (\<lambda>c. confidence c = confidence (hd (fst (recognize std_sort tie_engine go_path 20))))
        (fst (recognize std_sort tie_engine go_path 20))
   \<and> map confidence tied_candidates = replicate 17 (1 / 2)
   \<and> map cand_word tied_candidates = tie_words
   \<and> map cand_word (sortAndPrune std_sort 20 tied_candidates)
       = [''g-oo'', ''g--o'', ''g-ooo'', ''gg-oo'', ''ggg-o'', ''goooo'', ''ggooo'', ''gggoo'',
          ''ggggo'', ''go'', ''gg-o'', ''gooo'', ''ggoo'', ''gggo'', ''g-o'', ''goo'', ''ggo'']"
proof -
  obtain M A d where r: "\<And>srt. fst (recognize srt tie_engine go_path 20)
     = sortAndPrune srt 20
         (map (\<lambda>w. makeCandidate M A 1000 (\<lparr>entry_word = w, frequency = 1000, entry_flags = 0\<rparr>, d))
            tie_words)"
    using recognize_ties by blast
  let ?f = "\<lambda>w. makeCandidate M A 1000 (\<lparr>entry_word = w, frequency = 1000, entry_flags = 0\<rparr>, d)"
  have cmp: "\<And>a b. \<not> byConfidence (?f a) (?f b)"
    by (simp add: byConfidence_def makeCandidate_def Let_def)
  have srt: "std_sort byConfidence (map ?f tie_words)
      = map ?f [''g-oo'', ''g--o'', ''g-ooo'', ''gg-oo'', ''ggg-o'', ''goooo'', ''ggooo'', ''gggoo'',
          ''ggggo'', ''go'', ''gg-o'', ''gooo'', ''ggoo'', ''gggo'', ''g-o'', ''goo'', ''ggo'']"
    unfolding tie_words_def by (rule std_sort_17_ties[of byConfidence ?f, OF cmp])
  have sp: "fst (recognize std_sort tie_engine go_path 20)
      = map ?f [''g-oo'', ''g--o'', ''g-ooo'', ''gg-oo'', ''ggg-o'', ''goooo'', ''ggooo'', ''gggoo'',
          ''ggggo'', ''go'', ''gg-o'', ''gooo'', ''ggoo'', ''gggo'', ''g-o'', ''goo'', ''ggo'']"
    unfolding r sortAndPrune_def srt by (simp add: Let_def)
  have before: "fst (recognize (\<lambda>cmp xs. xs) tie_engine go_path 20) = map ?f tie_words"
    unfolding r sortAndPrune_def by (simp add: Let_def tie_words_def)
  have a: "map cand_word (fst (recognize (\<lambda>cmp xs. xs) tie_engine go_path 20)) = tie_words"
    unfolding before by (simp add: makeCandidate_def Let_def comp_def)
  have b: "map cand_word (fst (recognize std_sort tie_engine go_path 20))
       = [''g-oo'', ''g--o'', ''g-ooo'', ''gg-oo'', ''ggg-o'', ''goooo'', ''ggooo'', ''gggoo'',
          ''ggggo'', ''go'', ''gg-o'', ''gooo'', ''ggoo'', ''gggo'', ''g-o'', ''goo'', ''ggo'']"
    unfolding sp by (simp add: makeCandidate_def Let_def)
  have c: "list_all (\<lambda>c. confidence c = confidence (hd (fst (recognize std_sort tie_engine go_path 20))))
        (fst (recognize std_sort tie_engine go_path 20))"
    unfolding sp by (simp add: makeCandidate_def Let_def)
  have d: "distinct tie_words" by code_simp
  have e: "map confidence tied_candidates = replicate 17 (1 / 2)
   \<and> map cand_word tied_candidates = tie_words
   \<and> map cand_word (sortAndPrune std_sort 20 tied_candidates)
       = [''g-oo'', ''g--o'', ''g-ooo'', ''gg-oo'', ''ggg-o'', ''goooo'', ''ggooo'', ''gggoo'',
          ''ggggo'', ''go'', ''gg-o'', ''gooo'', ''ggoo'', ''gggo'', ''g-o'', ''goo'', ''ggo'']"
    by code_simp
  show ?thesis using a b c d e by blast
qed

end
